theory Spec2Isabelle
  imports Main "HOL-Library.AList" "HOL-Library.Word" "HOL-Library.Char_ord"
    "HOL-Library.List_Lexorder"
begin

section \<open>yaml2json: the values of the conversion\<close>

text \<open>
  The converter of \<^verbatim>\<open>main.go\<close> works on Go values of static type
  \<^verbatim>\<open>interface{}\<close>. The dynamic types modelled are those that the YAML decoder hands
  over (nil, bool, int, int64, uint64, float64, string, \<^verbatim>\<open>[]interface{}\<close>,
  \<^verbatim>\<open>map[interface{}]interface{}\<close>) and the one that \<^verbatim>\<open>transformData\<close> builds
  (\<^verbatim>\<open>map[string]interface{}\<close>).

  A Go \<^verbatim>\<open>int\<close> is a signed machine integer, here of 64 bits (a 64-bit build), read
  with \<open>sint\<close>. The decoder delivers an integer of the document as an int when it is in
  the range of int, and as an int64 or a uint64 (read with \<open>uint\<close>) when it is not: on a
  64-bit build the integers from \<open>2\<^sup>6\<^sup>3\<close> to \<open>2\<^sup>6\<^sup>4 - 1\<close> arrive as uint64. A
  float64 is carried as its 64 bits. A Go map is an association list: the order of the list
  is the order in which \<^verbatim>\<open>range\<close> visits the entries in one run (Go leaves that order
  unspecified), and a well-formed map has no two entries with the same key.
\<close>

datatype val =
    VNil
  | VBool bool
  | VInt "64 word"
  | VInt64 "64 word"
  | VUint64 "64 word"
  | VFloat64 "64 word"
  | VString string
  | VSlice "val list"
  | VMapII "(val \<times> val) list"
  | VMapSI "(string \<times> val) list"

text \<open>A Go error value is its message (\<^verbatim>\<open>fmt.Errorf\<close> builds nothing else).\<close>

datatype error = Error string

text \<open>The verb \<^verbatim>\<open>%T\<close> of package fmt prints the dynamic type of its operand.\<close>

fun typeName :: "val \<Rightarrow> string" where
  "typeName VNil = ''<nil>''"
| "typeName (VBool _) = ''bool''"
| "typeName (VInt _) = ''int''"
| "typeName (VInt64 _) = ''int64''"
| "typeName (VUint64 _) = ''uint64''"
| "typeName (VFloat64 _) = ''float64''"
| "typeName (VString _) = ''string''"
| "typeName (VSlice _) = ''[]interface {}''"
| "typeName (VMapII _) = ''map[interface {}]interface {}''"
| "typeName (VMapSI _) = ''map[string]interface {}''"

subsection \<open>strconv.Itoa\<close>

text \<open>
  Modelled from the spec: \<^verbatim>\<open>strconv.Itoa\<close> belongs to Go's standard library and
  is not part of the repository. It renders an integer in base 10, most significant digit
  first, with a leading minus sign for a negative number. It is given here on the value of
  the integer, and serves for \<^verbatim>\<open>strconv.AppendInt\<close> and \<^verbatim>\<open>strconv.AppendUint\<close>
  in base 10 as well.
\<close>

definition digitChar :: "nat \<Rightarrow> char" where
  "digitChar d = ''0123456789'' ! d"

fun natDigits :: "nat \<Rightarrow> string" where
  "natDigits n = (if n < 10 then [digitChar n] else natDigits (n div 10) @ [digitChar (n mod 10)])"

definition Itoa :: "int \<Rightarrow> string" where
  "Itoa i = (if i < 0 then CHR ''-'' # natDigits (nat (- i)) else natDigits (nat i))"

subsection \<open>transformData\<close>

text \<open>
  The inner type switch of \<^verbatim>\<open>transformData\<close> (lines 123 to 131) computes the
  string \<^verbatim>\<open>sk\<close> for a key \<^verbatim>\<open>k\<close>, or makes the whole function return the error.
\<close>

definition keyError :: "val \<Rightarrow> error" where
  "keyError k = Error (''types don't match: expect map key string or int get: '' @ typeName k)"

fun keyString :: "val \<Rightarrow> error + string" where
  "keyString (VString s) = Inr s"
| "keyString (VInt i) = Inr (Itoa (sint i))"
| "keyString k = Inl (keyError k)"

text \<open>
  \<^verbatim>\<open>transformData\<close> itself. \<open>mapLoop\<close> is the \<^verbatim>\<open>range\<close> loop of lines 122 to
  137 over the entries still to visit, with the map \<^verbatim>\<open>o\<close> built so far
  (\<^verbatim>\<open>o[sk] = v\<close> is \<open>AList.update\<close>); \<open>sliceLoop\<close> is the counting loop of lines
  143 to 148 over the elements still to visit, with the index \<^verbatim>\<open>i\<close> and the slice
  \<^verbatim>\<open>o\<close>, which starts as \<^verbatim>\<open>len1\<close> nil values. Every other value, a
  \<^verbatim>\<open>map[string]interface{}\<close> too, is returned as it is.
\<close>

fun transformData :: "val \<Rightarrow> error + val"
  and mapLoop :: "(val \<times> val) list \<Rightarrow> (string \<times> val) list \<Rightarrow> error + (string \<times> val) list"
  and sliceLoop :: "val list \<Rightarrow> nat \<Rightarrow> val list \<Rightarrow> error + val list" where
  "transformData (VMapII kvs) =
     (case mapLoop kvs [] of Inl e \<Rightarrow> Inl e | Inr o' \<Rightarrow> Inr (VMapSI o'))"
| "transformData (VSlice in1) =
     (case sliceLoop in1 0 (replicate (length in1) VNil) of
        Inl e \<Rightarrow> Inl e | Inr o' \<Rightarrow> Inr (VSlice o'))"
| "transformData VNil = Inr VNil"
| "transformData (VBool b) = Inr (VBool b)"
| "transformData (VInt i) = Inr (VInt i)"
| "transformData (VInt64 i) = Inr (VInt64 i)"
| "transformData (VUint64 i) = Inr (VUint64 i)"
| "transformData (VFloat64 f) = Inr (VFloat64 f)"
| "transformData (VString s) = Inr (VString s)"
| "transformData (VMapSI m) = Inr (VMapSI m)"
| "mapLoop [] o' = Inr o'"
| "mapLoop ((k, v) # kvs) o' =
     (case keyString k of
        Inl e \<Rightarrow> Inl e
      | Inr sk \<Rightarrow>
          (case transformData v of
             Inl e \<Rightarrow> Inl e
           | Inr v' \<Rightarrow> mapLoop kvs (AList.update sk v' o')))"
| "sliceLoop [] i o' = Inr o'"
| "sliceLoop (x # xs) i o' =
     (case transformData x of
        Inl e \<Rightarrow> Inl e
      | Inr x' \<Rightarrow> sliceLoop xs (Suc i) (o'[i := x']))"

section \<open>The byte loader\<close>

text \<open>
  The file system and the network are outside the program. A \<open>world\<close> holds what they
  answer: \<^verbatim>\<open>ioutil.ReadFile\<close>, \<^verbatim>\<open>http.NewRequest\<close> and the \<^verbatim>\<open>Do\<close> method of an
  \<^verbatim>\<open>http.Client\<close> whose \<^verbatim>\<open>Timeout\<close> field is the first argument (a
  \<^verbatim>\<open>time.Duration\<close>, in nanoseconds). \<open>Quote\<close> is the verb \<^verbatim>\<open>%q\<close> of package fmt.
  The \<open>Body\<close> of a response is what \<^verbatim>\<open>ioutil.ReadAll\<close> gets from it: all its bytes, or
  the error that ends the reading. \<^verbatim>\<open>Do\<close> returns a response, or an error, with which a
  response may come that still has to be closed.
\<close>

type_synonym bytes = string

record request =
  Method :: string
  URL :: string

record response =
  StatusCode :: int
  Status :: string
  Body :: "error + bytes"

datatype doResult = DoOK response | DoErr error "response option"

record world =
  ReadFile :: "string \<Rightarrow> error + bytes"
  NewRequest :: "string \<Rightarrow> string \<Rightarrow> error + request"
  Do :: "int \<Rightarrow> request \<Rightarrow> doResult"
  Quote :: "string \<Rightarrow> string"

text \<open>
  What a loader does to the world is recorded next to its result: the file it reads, the
  requests it sends with the timeout of the client that sends them, the response bodies it
  closes.
\<close>

datatype event = FileRead string | RequestSent int request | BodyClosed

type_synonym loader = "string \<Rightarrow> (error + bytes) \<times> event list"


text \<open>
  Modelled from the spec: \<^verbatim>\<open>strings.HasPrefix\<close> belongs to Go's standard library and is
  not part of the repository. It tells whether a string begins with a prefix.
\<close>

definition HasPrefix :: "string \<Rightarrow> string \<Rightarrow> bool" where
  "HasPrefix s prefix = (length prefix \<le> length s \<and> take (length prefix) s = prefix)"

definition Second :: int where
  "Second = 1000000000"

definition LoadHTTPTimeout :: int where
  "LoadHTTPTimeout = 30 * Second"

definition LoadStrategy :: "string \<Rightarrow> 'l \<Rightarrow> 'l \<Rightarrow> 'l" where
  "LoadStrategy path local remote = (if HasPrefix path ''http'' then remote else local)"

definition readFile :: "world \<Rightarrow> loader" where
  "readFile w path = (ReadFile w path, [FileRead path])"

text \<open>
  \<^verbatim>\<open>loadHTTPBytes\<close>, lines 72 to 97. The deferred function closes the body whenever
  \<^verbatim>\<open>Do\<close> has returned a response.
\<close>

definition loadHTTPBytes :: "world \<Rightarrow> int \<Rightarrow> loader" where
  "loadHTTPBytes w timeout path =
     (case NewRequest w ''GET'' path of
        Inl err \<Rightarrow> (Inl err, [])
      | Inr req \<Rightarrow>
          (case Do w timeout req of
             DoErr err None \<Rightarrow> (Inl err, [RequestSent timeout req])
           | DoErr err (Some resp) \<Rightarrow> (Inl err, [RequestSent timeout req, BodyClosed])
           | DoOK resp \<Rightarrow>
               if StatusCode resp \<noteq> 200
               then (Inl (Error (''could not access document at '' @ Quote w path @ '' [''
                                 @ Status resp @ ''] '')),
                     [RequestSent timeout req, BodyClosed])
               else (Body resp, [RequestSent timeout req, BodyClosed])))"

definition LoadFromFileOrHTTP :: "world \<Rightarrow> loader" where
  "LoadFromFileOrHTTP w path =
     LoadStrategy path (readFile w) (loadHTTPBytes w LoadHTTPTimeout) path"

section \<open>Decoding the YAML document\<close>

text \<open>
  Modelled from the spec: \<^verbatim>\<open>yaml.Unmarshal\<close> belongs to package
  \<^verbatim>\<open>gopkg.in/yaml.v2\<close> and is not part of the repository. \<open>Decode\<close> is its parser: the
  Generic Node that a byte stream denotes, or the error for a stream that is not valid
  YAML. \<^verbatim>\<open>bytesToYAMLDoc\<close> asks for the document in a variable of type
  \<^verbatim>\<open>map[interface{}]interface{}\<close>: a mapping is stored there, a null or empty document
  leaves the nil map (which \<^verbatim>\<open>range\<close> treats as the empty map), and for a document of any
  other kind the package returns its \<^verbatim>\<open>TypeError\<close>.
\<close>

record yaml =
  Decode :: "bytes \<Rightarrow> error + val"
  TypeError :: "val \<Rightarrow> error"

definition Unmarshal :: "yaml \<Rightarrow> bytes \<Rightarrow> error + (val \<times> val) list" where
  "Unmarshal y data =
     (case Decode y data of
        Inl err \<Rightarrow> Inl err
      | Inr doc \<Rightarrow>
          (case doc of
             VMapII m \<Rightarrow> Inr m
           | VNil \<Rightarrow> Inr []
           | _ \<Rightarrow> Inl (TypeError y doc)))"

definition bytesToYAMLDoc :: "yaml \<Rightarrow> bytes \<Rightarrow> error + val" where
  "bytesToYAMLDoc y data =
     (case Unmarshal y data of
        Inl err \<Rightarrow> Inl err
      | Inr document \<Rightarrow> Inr (VMapII document))"

definition YAMLData :: "world \<Rightarrow> yaml \<Rightarrow> string \<Rightarrow> (error + val) \<times> event list" where
  "YAMLData w y path =
     (case LoadFromFileOrHTTP w path of
        (Inl err, evs) \<Rightarrow> (Inl err, evs)
      | (Inr data, evs) \<Rightarrow> (bytesToYAMLDoc y data, evs))"

section \<open>Serializing\<close>

text \<open>
  Modelled from the spec: \<^verbatim>\<open>json.Marshal\<close> belongs to Go's package
  \<^verbatim>\<open>encoding/json\<close> and is not part of the repository. It writes null, true and
  false as these words, an integer in decimal, a sequence between brackets and a
  \<^verbatim>\<open>map[string]interface{}\<close> between braces with its keys sorted (as byte strings),
  a colon after each key and commas between the members. It refuses a float64 that is NaN
  or infinite (all eleven exponent bits set) and a \<^verbatim>\<open>map[interface{}]interface{}\<close>,
  and the first error met in this order is the result. Which characters it writes for a
  finite float64 is left to the package (\<open>FormatFloat\<close>): they are digits, signs, a
  point and the letter e, at least one of them. How it quotes and escapes a string
  (\<open>QuoteString\<close>) is left to the package too.
\<close>

datatype numberChar = Digit nat | Minus | Plus | Point | Exponent

fun numberCharText :: "numberChar \<Rightarrow> char" where
  "numberCharText (Digit d) = digitChar (d mod 10)"
| "numberCharText Minus = CHR ''-''"
| "numberCharText Plus = CHR ''+''"
| "numberCharText Point = CHR ''.''"
| "numberCharText Exponent = CHR ''e''"

record jsonlib =
  FormatFloat :: "64 word \<Rightarrow> numberChar \<times> numberChar list"
  QuoteString :: "string \<Rightarrow> string"

definition floatText :: "jsonlib \<Rightarrow> 64 word \<Rightarrow> string" where
  "floatText j f = map numberCharText (fst (FormatFloat j f) # snd (FormatFloat j f))"

definition unsupportedFloat :: "64 word \<Rightarrow> bool" where
  "unsupportedFloat f = (take_bit 11 (drop_bit 52 f) = (2047 :: 64 word))"

definition floatName :: "64 word \<Rightarrow> string" where
  "floatName f =
     (if take_bit 52 f \<noteq> 0 then ''NaN'' else if bit f 63 then ''-Inf'' else ''+Inf'')"

fun firstError :: "(error + 'a) list \<Rightarrow> error + 'a list" where
  "firstError [] = Inr []"
| "firstError (Inl e # rs) = Inl e"
| "firstError (Inr x # rs) = (case firstError rs of Inl e \<Rightarrow> Inl e | Inr xs \<Rightarrow> Inr (x # xs))"

fun commaJoin :: "string list \<Rightarrow> string" where
  "commaJoin [] = []"
| "commaJoin [s] = s"
| "commaJoin (s # t # ss) = s @ '','' @ commaJoin (t # ss)"

definition objectMember :: "jsonlib \<Rightarrow> string \<times> (error + string) \<Rightarrow> error + string" where
  "objectMember j kr = (case snd kr of Inl e \<Rightarrow> Inl e | Inr s \<Rightarrow> Inr (QuoteString j (fst kr) @ '':'' @ s))"

fun Marshal :: "jsonlib \<Rightarrow> val \<Rightarrow> error + string"
  and marshalMembers :: "jsonlib \<Rightarrow> (string \<times> val) list \<Rightarrow> (string \<times> (error + string)) list"
  and marshalElems :: "jsonlib \<Rightarrow> val list \<Rightarrow> (error + string) list" where
  "Marshal j VNil = Inr ''null''"
| "Marshal j (VBool b) = Inr (if b then ''true'' else ''false'')"
| "Marshal j (VInt i) = Inr (Itoa (sint i))"
| "Marshal j (VInt64 i) = Inr (Itoa (sint i))"
| "Marshal j (VUint64 u) = Inr (Itoa (uint u))"
| "Marshal j (VFloat64 f) =
     (if unsupportedFloat f then Inl (Error (''json: unsupported value: '' @ floatName f))
      else Inr (floatText j f))"
| "Marshal j (VString s) = Inr (QuoteString j s)"
| "Marshal j (VSlice xs) =
     (case firstError (marshalElems j xs) of
        Inl e \<Rightarrow> Inl e
      | Inr ss \<Rightarrow> Inr (''['' @ commaJoin ss @ '']''))"
| "Marshal j (VMapSI m) =
     (case firstError (map (objectMember j) (sort_key fst (marshalMembers j m))) of
        Inl e \<Rightarrow> Inl e
      | Inr ss \<Rightarrow> Inr (''{'' @ commaJoin ss @ ''}''))"
| "Marshal j (VMapII kvs) = Inl (Error ''json: unsupported type: map[interface {}]interface {}'')"
| "marshalMembers j [] = []"
| "marshalMembers j ((k, v) # m) = (k, Marshal j v) # marshalMembers j m"
| "marshalElems j [] = []"
| "marshalElems j (x # xs) = Marshal j x # marshalElems j xs"

text \<open>
  \<^verbatim>\<open>YAMLToJSON\<close>, lines 100 to 107, and \<^verbatim>\<open>YAMLDoc\<close>, lines 155 to 167.
\<close>

definition YAMLToJSON :: "jsonlib \<Rightarrow> val \<Rightarrow> error + string" where
  "YAMLToJSON j data =
     (case transformData data of
        Inl err \<Rightarrow> Inl err
      | Inr jm \<Rightarrow> Marshal j jm)"

definition YAMLDoc :: "world \<Rightarrow> yaml \<Rightarrow> jsonlib \<Rightarrow> string \<Rightarrow> (error + string) \<times> event list" where
  "YAMLDoc w y j path =
     (case YAMLData w y path of
        (Inl err, evs) \<Rightarrow> (Inl err, evs)
      | (Inr yamlDoc, evs) \<Rightarrow> (YAMLToJSON j yamlDoc, evs))"

section \<open>Properties of trees the claims speak of\<close>

text \<open>
  A key that is neither a string nor an int: the \<^verbatim>\<open>default\<close> branch of the key switch.
  An integer that arrives as an int64 or a uint64 is such a key.
\<close>

fun isBadKey :: "val \<Rightarrow> bool" where
  "isBadKey (VString _) = False"
| "isBadKey (VInt _) = False"
| "isBadKey (VInt64 _) = True"
| "isBadKey (VUint64 _) = True"
| "isBadKey VNil = True"
| "isBadKey (VBool _) = True"
| "isBadKey (VFloat64 _) = True"
| "isBadKey (VSlice _) = True"
| "isBadKey (VMapII _) = True"
| "isBadKey (VMapSI _) = True"

text \<open>
  An integer of the document, whichever of the three Go types carries it, and its value.
\<close>

fun isInteger :: "val \<Rightarrow> bool" where
  "isInteger (VInt _) = True"
| "isInteger (VInt64 _) = True"
| "isInteger (VUint64 _) = True"
| "isInteger _ = False"

fun integerValue :: "val \<Rightarrow> int" where
  "integerValue (VInt i) = sint i"
| "integerValue (VInt64 i) = sint i"
| "integerValue (VUint64 u) = uint u"
| "integerValue _ = 0"

text \<open>
  The keys of a tree that are neither strings nor ints, in the order in which a run that
  visits the map entries in list order meets them: the key of an entry, then the keys inside
  its value, then the remaining entries.
\<close>

fun badKeys :: "val \<Rightarrow> val list"
  and badKeysII :: "(val \<times> val) list \<Rightarrow> val list"
  and badKeysSI :: "(string \<times> val) list \<Rightarrow> val list"
  and badKeysElems :: "val list \<Rightarrow> val list" where
  "badKeys (VMapII kvs) = badKeysII kvs"
| "badKeys (VMapSI m) = badKeysSI m"
| "badKeys (VSlice xs) = badKeysElems xs"
| "badKeys VNil = []"
| "badKeys (VBool _) = []"
| "badKeys (VInt _) = []"
| "badKeys (VInt64 _) = []"
| "badKeys (VUint64 _) = []"
| "badKeys (VFloat64 _) = []"
| "badKeys (VString _) = []"
| "badKeysII [] = []"
| "badKeysII ((k, v) # kvs) = (if isBadKey k then [k] else []) @ badKeys v @ badKeysII kvs"
| "badKeysSI [] = []"
| "badKeysSI ((s, v) # m) = badKeys v @ badKeysSI m"
| "badKeysElems [] = []"
| "badKeysElems (x # xs) = badKeys x @ badKeysElems xs"

text \<open>
  A Generic Node, the tree the YAML decoder hands over: no \<^verbatim>\<open>map[string]interface{}\<close>
  among the values of its maps and the elements of its sequences. Keys are not constrained:
  the converter looks at nothing but their dynamic type.
\<close>

fun generic :: "val \<Rightarrow> bool"
  and genericEntries :: "(val \<times> val) list \<Rightarrow> bool"
  and genericElems :: "val list \<Rightarrow> bool" where
  "generic (VMapII kvs) = genericEntries kvs"
| "generic (VMapSI m) = False"
| "generic (VSlice xs) = genericElems xs"
| "generic VNil = True"
| "generic (VBool _) = True"
| "generic (VInt _) = True"
| "generic (VInt64 _) = True"
| "generic (VUint64 _) = True"
| "generic (VFloat64 _) = True"
| "generic (VString _) = True"
| "genericEntries [] = True"
| "genericEntries ((k, v) # kvs) = (generic v \<and> genericEntries kvs)"
| "genericElems [] = True"
| "genericElems (x # xs) = (generic x \<and> genericElems xs)"

text \<open>
  A Canonical Node: every mapping of the tree is a \<^verbatim>\<open>map[string]interface{}\<close>.
\<close>

fun canonical :: "val \<Rightarrow> bool"
  and canonicalSI :: "(string \<times> val) list \<Rightarrow> bool"
  and canonicalElems :: "val list \<Rightarrow> bool" where
  "canonical (VMapII kvs) = False"
| "canonical (VMapSI m) = canonicalSI m"
| "canonical (VSlice xs) = canonicalElems xs"
| "canonical VNil = True"
| "canonical (VBool _) = True"
| "canonical (VInt _) = True"
| "canonical (VInt64 _) = True"
| "canonical (VUint64 _) = True"
| "canonical (VFloat64 _) = True"
| "canonical (VString _) = True"
| "canonicalSI [] = True"
| "canonicalSI ((s, v) # m) = (canonical v \<and> canonicalSI m)"
| "canonicalElems [] = True"
| "canonicalElems (x # xs) = (canonical x \<and> canonicalElems xs)"

text \<open>
  Every mapping key of the tree is a string, whichever of the two map types holds it.
\<close>

fun isString :: "val \<Rightarrow> bool" where
  "isString (VString _) = True"
| "isString _ = False"

fun stringKeys :: "val \<Rightarrow> bool"
  and stringKeysII :: "(val \<times> val) list \<Rightarrow> bool"
  and stringKeysSI :: "(string \<times> val) list \<Rightarrow> bool"
  and stringKeysElems :: "val list \<Rightarrow> bool" where
  "stringKeys (VMapII kvs) = stringKeysII kvs"
| "stringKeys (VMapSI m) = stringKeysSI m"
| "stringKeys (VSlice xs) = stringKeysElems xs"
| "stringKeys VNil = True"
| "stringKeys (VBool _) = True"
| "stringKeys (VInt _) = True"
| "stringKeys (VInt64 _) = True"
| "stringKeys (VUint64 _) = True"
| "stringKeys (VFloat64 _) = True"
| "stringKeys (VString _) = True"
| "stringKeysII [] = True"
| "stringKeysII ((k, v) # kvs) = (isString k \<and> stringKeys v \<and> stringKeysII kvs)"
| "stringKeysSI [] = True"
| "stringKeysSI ((s, v) # m) = (stringKeys v \<and> stringKeysSI m)"
| "stringKeysElems [] = True"
| "stringKeysElems (x # xs) = (stringKeys x \<and> stringKeysElems xs)"

text \<open>
  The invariant of Go's maps: no key occurs twice in one map.
\<close>

fun wellFormed :: "val \<Rightarrow> bool"
  and wellFormedII :: "(val \<times> val) list \<Rightarrow> bool"
  and wellFormedSI :: "(string \<times> val) list \<Rightarrow> bool"
  and wellFormedElems :: "val list \<Rightarrow> bool" where
  "wellFormed (VMapII kvs) = (distinct (map fst kvs) \<and> wellFormedII kvs)"
| "wellFormed (VMapSI m) = (distinct (map fst m) \<and> wellFormedSI m)"
| "wellFormed (VSlice xs) = wellFormedElems xs"
| "wellFormed VNil = True"
| "wellFormed (VBool _) = True"
| "wellFormed (VInt _) = True"
| "wellFormed (VInt64 _) = True"
| "wellFormed (VUint64 _) = True"
| "wellFormed (VFloat64 _) = True"
| "wellFormed (VString _) = True"
| "wellFormedII [] = True"
| "wellFormedII ((k, v) # kvs) = (wellFormed v \<and> wellFormedII kvs)"
| "wellFormedSI [] = True"
| "wellFormedSI ((s, v) # m) = (wellFormed v \<and> wellFormedSI m)"
| "wellFormedElems [] = True"
| "wellFormedElems (x # xs) = (wellFormed x \<and> wellFormedElems xs)"

text \<open>
  The shape of a tree, with the concrete container types forgotten: scalars, sequences and
  mappings from key values to shapes. Two Go values have the same structure and the same
  scalar values exactly when their shapes are equal.
\<close>

datatype tree =
    Scalar val
  | Sequence "tree list"
  | Mapping "(val \<times> tree) list"

fun shape :: "val \<Rightarrow> tree"
  and shapeII :: "(val \<times> val) list \<Rightarrow> (val \<times> tree) list"
  and shapeSI :: "(string \<times> val) list \<Rightarrow> (val \<times> tree) list"
  and shapeElems :: "val list \<Rightarrow> tree list" where
  "shape (VMapII kvs) = Mapping (shapeII kvs)"
| "shape (VMapSI m) = Mapping (shapeSI m)"
| "shape (VSlice xs) = Sequence (shapeElems xs)"
| "shape VNil = Scalar VNil"
| "shape (VBool b) = Scalar (VBool b)"
| "shape (VInt i) = Scalar (VInt i)"
| "shape (VInt64 i) = Scalar (VInt64 i)"
| "shape (VUint64 i) = Scalar (VUint64 i)"
| "shape (VFloat64 f) = Scalar (VFloat64 f)"
| "shape (VString s) = Scalar (VString s)"
| "shapeII [] = []"
| "shapeII ((k, v) # kvs) = (k, shape v) # shapeII kvs"
| "shapeSI [] = []"
| "shapeSI ((s, v) # m) = (VString s, shape v) # shapeSI m"
| "shapeElems [] = []"
| "shapeElems (x # xs) = shape x # shapeElems xs"

text \<open>
  The text of a key (empty for a key that has none), and the shape in which every key is
  replaced by its text: the original seen with "integer keys rendered as their decimal
  string form".
\<close>

definition keyText :: "val \<Rightarrow> string" where
  "keyText k = (case keyString k of Inr s \<Rightarrow> s | Inl _ \<Rightarrow> [])"

fun textKeys :: "tree \<Rightarrow> tree"
  and textKeysEntries :: "(val \<times> tree) list \<Rightarrow> (val \<times> tree) list"
  and textKeysElems :: "tree list \<Rightarrow> tree list" where
  "textKeys (Scalar v) = Scalar v"
| "textKeys (Sequence ts) = Sequence (textKeysElems ts)"
| "textKeys (Mapping es) = Mapping (textKeysEntries es)"
| "textKeysEntries [] = []"
| "textKeysEntries ((k, t) # es) = (VString (keyText k), textKeys t) # textKeysEntries es"
| "textKeysElems [] = []"
| "textKeysElems (t # ts) = textKeys t # textKeysElems ts"

text \<open>
  No two keys of one mapping have the same text, so that no entry overwrites another.
\<close>

fun noCollision :: "val \<Rightarrow> bool"
  and noCollisionII :: "(val \<times> val) list \<Rightarrow> bool"
  and noCollisionSI :: "(string \<times> val) list \<Rightarrow> bool"
  and noCollisionElems :: "val list \<Rightarrow> bool" where
  "noCollision (VMapII kvs) = (distinct (map (keyText \<circ> fst) kvs) \<and> noCollisionII kvs)"
| "noCollision (VMapSI m) = (distinct (map fst m) \<and> noCollisionSI m)"
| "noCollision (VSlice xs) = noCollisionElems xs"
| "noCollision VNil = True"
| "noCollision (VBool _) = True"
| "noCollision (VInt _) = True"
| "noCollision (VInt64 _) = True"
| "noCollision (VUint64 _) = True"
| "noCollision (VFloat64 _) = True"
| "noCollision (VString _) = True"
| "noCollisionII [] = True"
| "noCollisionII ((k, v) # kvs) = (noCollision v \<and> noCollisionII kvs)"
| "noCollisionSI [] = True"
| "noCollisionSI ((s, v) # m) = (noCollision v \<and> noCollisionSI m)"
| "noCollisionElems [] = True"
| "noCollisionElems (x # xs) = (noCollision x \<and> noCollisionElems xs)"

text \<open>
  The same Go value, met in another order: two trees are the same value when they differ
  at most in the order in which the entries of their maps are listed, the order in which
  one run or another happens to visit them. For maps without repeated keys it is enough
  that the two have the same number of entries and each entry of the first has its key in
  the second, with the same value there.
\<close>

fun sameValue :: "val \<Rightarrow> val \<Rightarrow> bool"
  and sameII :: "(val \<times> val) list \<Rightarrow> (val \<times> val) list \<Rightarrow> bool"
  and sameSI :: "(string \<times> val) list \<Rightarrow> (string \<times> val) list \<Rightarrow> bool"
  and sameElems :: "val list \<Rightarrow> val list \<Rightarrow> bool" where
  "sameValue (VMapII m) b = (case b of VMapII m' \<Rightarrow> length m = length m' \<and> sameII m m' | _ \<Rightarrow> False)"
| "sameValue (VMapSI m) b = (case b of VMapSI m' \<Rightarrow> length m = length m' \<and> sameSI m m' | _ \<Rightarrow> False)"
| "sameValue (VSlice xs) b = (case b of VSlice ys \<Rightarrow> sameElems xs ys | _ \<Rightarrow> False)"
| "sameValue VNil b = (b = VNil)"
| "sameValue (VBool x) b = (b = VBool x)"
| "sameValue (VInt i) b = (b = VInt i)"
| "sameValue (VInt64 i) b = (b = VInt64 i)"
| "sameValue (VUint64 i) b = (b = VUint64 i)"
| "sameValue (VFloat64 f) b = (b = VFloat64 f)"
| "sameValue (VString s) b = (b = VString s)"
| "sameII [] m' = True"
| "sameII ((k, v) # m) m' =
     ((case map_of m' k of None \<Rightarrow> False | Some v' \<Rightarrow> sameValue v v') \<and> sameII m m')"
| "sameSI [] m' = True"
| "sameSI ((s, v) # m) m' =
     ((case map_of m' s of None \<Rightarrow> False | Some v' \<Rightarrow> sameValue v v') \<and> sameSI m m')"
| "sameElems [] ys = (ys = [])"
| "sameElems (x # xs) ys = (case ys of [] \<Rightarrow> False | y # ys' \<Rightarrow> sameValue x y \<and> sameElems xs ys')"

text \<open>
  What the spec asks \<open>normalize\<close> to build: each key replaced by its text, each value
  and each element normalized, in a new mapping or sequence; everything else unchanged.
  This definition follows the spec, to be compared with \<open>transformData\<close>.
\<close>

fun normalForm :: "val \<Rightarrow> val"
  and normalFormII :: "(val \<times> val) list \<Rightarrow> (string \<times> val) list"
  and normalFormElems :: "val list \<Rightarrow> val list" where
  "normalForm (VMapII kvs) = VMapSI (normalFormII kvs)"
| "normalForm (VSlice xs) = VSlice (normalFormElems xs)"
| "normalForm (VMapSI m) = VMapSI m"
| "normalForm VNil = VNil"
| "normalForm (VBool b) = VBool b"
| "normalForm (VInt i) = VInt i"
| "normalForm (VInt64 i) = VInt64 i"
| "normalForm (VUint64 i) = VUint64 i"
| "normalForm (VFloat64 f) = VFloat64 f"
| "normalForm (VString s) = VString s"
| "normalFormII [] = []"
| "normalFormII ((k, v) # kvs) = (keyText k, normalForm v) # normalFormII kvs"
| "normalFormElems [] = []"
| "normalFormElems (x # xs) = normalForm x # normalFormElems xs"

subsection \<open>Canonical decimal numerals\<close>

text \<open>
  What the claims call the canonical base-10 form of an integer \<open>i\<close>: an optional minus
  sign, present exactly for a negative \<open>i\<close>, followed by decimal digits that denote
  \<open>\<bar>i\<bar>\<close> and do not start with a zero unless they are the single digit zero.
\<close>

definition isDigit :: "char \<Rightarrow> bool" where
  "isDigit c = (48 \<le> (of_char c :: nat) \<and> (of_char c :: nat) \<le> 57)"

definition digitValue :: "char \<Rightarrow> nat" where
  "digitValue c = of_char c - 48"

definition decimalValue :: "string \<Rightarrow> nat" where
  "decimalValue ds = foldl (\<lambda>a c. 10 * a + digitValue c) 0 ds"

definition canonicalDigits :: "string \<Rightarrow> bool" where
  "canonicalDigits ds = (ds \<noteq> [] \<and> list_all isDigit ds \<and> (hd ds \<noteq> CHR ''0'' \<or> ds = ''0''))"

definition canonicalDecimal :: "string \<Rightarrow> int \<Rightarrow> bool" where
  "canonicalDecimal s i =
     (case s of
        [] \<Rightarrow> False
      | c # ds \<Rightarrow>
          if c = CHR ''-'' then i < 0 \<and> canonicalDigits ds \<and> int (decimalValue ds) = - i
          else 0 \<le> i \<and> canonicalDigits s \<and> int (decimalValue s) = i)"

section \<open>Reading the bytes back\<close>

text \<open>
  Modelled from the spec: the repository has no reader for its own output; the spec's
  round-trip property re-parses the bytes "as target format". A \<open>json\<close> value is what
  such a reader returns: null, a truth value, a number (kept as the text of its literal,
  the only thing JSON says about a number), a string, an array, an object with its members
  in the order of the text. \<open>parseValue\<close> reads one value from the front of a text in
  the compact form that \<^verbatim>\<open>json.Marshal\<close> writes (no white space) and returns it
  with the rest of the text. How a quoted string is read (\<open>UnquoteString\<close>) belongs to
  the reader at hand, as \<open>QuoteString\<close> belongs to the writer. The functions count
  their calls down from a bound; \<open>reparse\<close> starts them with twice the length of the
  text and one more, which is shown below to be enough for every text that
  \<^verbatim>\<open>json.Marshal\<close> writes.
\<close>

datatype json =
    JNull
  | JBool bool
  | JNumber string
  | JString string
  | JArray "json list"
  | JObject "(string \<times> json) list"







text \<open>
  The document that the bytes written for a canonical tree denote: the members of an
  object in the order of their keys.
\<close>

fun document :: "jsonlib \<Rightarrow> val \<Rightarrow> json"
  and documentMembers :: "jsonlib \<Rightarrow> (string \<times> val) list \<Rightarrow> (string \<times> json) list"
  and documentElems :: "jsonlib \<Rightarrow> val list \<Rightarrow> json list" where
  "document j VNil = JNull"
| "document j (VBool b) = JBool b"
| "document j (VInt i) = JNumber (Itoa (sint i))"
| "document j (VInt64 i) = JNumber (Itoa (sint i))"
| "document j (VUint64 u) = JNumber (Itoa (uint u))"
| "document j (VFloat64 f) = JNumber (floatText j f)"
| "document j (VString s) = JString s"
| "document j (VSlice xs) = JArray (documentElems j xs)"
| "document j (VMapSI m) = JObject (sort_key fst (documentMembers j m))"
| "document j (VMapII kvs) = JNull"
| "documentMembers j [] = []"
| "documentMembers j ((k, v) # m) = (k, document j v) # documentMembers j m"
| "documentElems j [] = []"
| "documentElems j (x # xs) = document j x # documentElems j xs"

text \<open>
  A document is isomorphic to a tree when it has the same shape and the same scalars, and
  its objects have, for each entry of the tree's mapping, a member under the text of the
  key with an isomorphic value, and no member more. Numbers are compared as JSON has them,
  by the text of the literal.
\<close>

fun isomorphic :: "jsonlib \<Rightarrow> val \<Rightarrow> json \<Rightarrow> bool"
  and isomorphicII :: "jsonlib \<Rightarrow> (val \<times> val) list \<Rightarrow> (string \<times> json) list \<Rightarrow> bool"
  and isomorphicSI :: "jsonlib \<Rightarrow> (string \<times> val) list \<Rightarrow> (string \<times> json) list \<Rightarrow> bool"
  and isomorphicElems :: "jsonlib \<Rightarrow> val list \<Rightarrow> json list \<Rightarrow> bool" where
  "isomorphic j VNil d = (d = JNull)"
| "isomorphic j (VBool b) d = (d = JBool b)"
| "isomorphic j (VInt i) d = (d = JNumber (Itoa (sint i)))"
| "isomorphic j (VInt64 i) d = (d = JNumber (Itoa (sint i)))"
| "isomorphic j (VUint64 u) d = (d = JNumber (Itoa (uint u)))"
| "isomorphic j (VFloat64 f) d = (d = JNumber (floatText j f))"
| "isomorphic j (VString s) d = (d = JString s)"
| "isomorphic j (VSlice xs) d = (case d of JArray ds \<Rightarrow> isomorphicElems j xs ds | _ \<Rightarrow> False)"
| "isomorphic j (VMapII kvs) d =
     (case d of JObject ms \<Rightarrow> length kvs = length ms \<and> isomorphicII j kvs ms | _ \<Rightarrow> False)"
| "isomorphic j (VMapSI m) d =
     (case d of JObject ms \<Rightarrow> length m = length ms \<and> isomorphicSI j m ms | _ \<Rightarrow> False)"
| "isomorphicII j [] ms = True"
| "isomorphicII j ((k, v) # kvs) ms =
     ((case map_of ms (keyText k) of None \<Rightarrow> False | Some d \<Rightarrow> isomorphic j v d) \<and>
      isomorphicII j kvs ms)"
| "isomorphicSI j [] ms = True"
| "isomorphicSI j ((s, v) # m) ms =
     ((case map_of ms s of None \<Rightarrow> False | Some d \<Rightarrow> isomorphic j v d) \<and>
      isomorphicSI j m ms)"
| "isomorphicElems j [] ds = (ds = [])"
| "isomorphicElems j (x # xs) ds =
     (case ds of [] \<Rightarrow> False | d # ds' \<Rightarrow> isomorphic j x d \<and> isomorphicElems j xs ds')"







subsection \<open>A writer and a reader for the examples\<close>




section \<open>strconv.Itoa prints canonical decimals\<close>

declare natDigits.simps [simp del]

lemma digit_cases:
  "(d::nat) < 10 \<Longrightarrow> d = 0 \<or> d = 1 \<or> d = 2 \<or> d = 3 \<or> d = 4 \<or> d = 5 \<or> d = 6 \<or> d = 7 \<or> d = 8 \<or> d = 9"
  by arith

lemma of_char_digitChar: "d < 10 \<Longrightarrow> (of_char (digitChar d) :: nat) = 48 + d"
  using digit_cases[of d] by (auto simp: digitChar_def)

lemma isDigit_digitChar: "d < 10 \<Longrightarrow> isDigit (digitChar d)"
  by (simp add: isDigit_def of_char_digitChar)

lemma digitValue_digitChar: "d < 10 \<Longrightarrow> digitValue (digitChar d) = d"
  by (simp add: digitValue_def of_char_digitChar)

lemma digitChar_eq_zero: "d < 10 \<Longrightarrow> digitChar d = CHR ''0'' \<longleftrightarrow> d = 0"
proof
  assume d: "d < 10" and "digitChar d = CHR ''0''"
  then have "(of_char (digitChar d) :: nat) = of_char CHR ''0''" by simp
  with d show "d = 0" by (simp add: of_char_digitChar)
next
  assume "d = 0"
  then show "digitChar d = CHR ''0''" by (simp add: digitChar_def)
qed

lemma digitChar_not_minus: "d < 10 \<Longrightarrow> digitChar d \<noteq> CHR ''-''"
proof
  assume d: "d < 10" and "digitChar d = CHR ''-''"
  then have "(of_char (digitChar d) :: nat) = of_char CHR ''-''" by simp
  with d show False by (simp add: of_char_digitChar)
qed

lemma natDigits_nonempty: "natDigits n \<noteq> []"
  by (induction n rule: natDigits.induct) (subst natDigits.simps, simp)

lemma natDigits_all_digits: "list_all isDigit (natDigits n)"
proof (induction n rule: natDigits.induct)
  case (1 n)
  show ?case
  proof (cases "n < 10")
    case True
    then show ?thesis by (subst natDigits.simps) (simp add: isDigit_digitChar)
  next
    case False
    with 1 show ?thesis by (subst natDigits.simps) (simp add: isDigit_digitChar)
  qed
qed

lemma decimalValue_snoc: "decimalValue (ds @ [c]) = 10 * decimalValue ds + digitValue c"
  by (simp add: decimalValue_def)

lemma decimalValue_natDigits: "decimalValue (natDigits n) = n"
proof (induction n rule: natDigits.induct)
  case (1 n)
  show ?case
  proof (cases "n < 10")
    case True
    then show ?thesis
      by (subst natDigits.simps) (simp add: decimalValue_def digitValue_digitChar)
  next
    case False
    with 1 have "decimalValue (natDigits (n div 10)) = n div 10" by simp
    with False show ?thesis
      by (subst natDigits.simps) (simp add: decimalValue_snoc digitValue_digitChar)
  qed
qed

lemma hd_natDigits_zero: "hd (natDigits n) = CHR ''0'' \<Longrightarrow> n = 0"
proof (induction n rule: natDigits.induct)
  case (1 n)
  show ?case
  proof (cases "n < 10")
    case True
    with "1.prems" show ?thesis by (subst (asm) natDigits.simps) (simp add: digitChar_eq_zero)
  next
    case False
    with "1.prems" have "hd (natDigits (n div 10)) = CHR ''0''"
      by (subst (asm) natDigits.simps) (simp add: natDigits_nonempty)
    with False 1 have "n div 10 = 0" by simp
    with False show ?thesis by simp
  qed
qed

lemma natDigits_0: "natDigits 0 = ''0''"
  by (subst natDigits.simps) (simp add: digitChar_def)

lemma hd_natDigits_not_minus: "hd (natDigits n) \<noteq> CHR ''-''"
proof (induction n rule: natDigits.induct)
  case (1 n)
  show ?case
  proof (cases "n < 10")
    case True
    then show ?thesis by (subst natDigits.simps) (simp add: digitChar_not_minus)
  next
    case False
    with 1 show ?thesis
      by (subst natDigits.simps) (simp add: natDigits_nonempty)
  qed
qed

lemma canonicalDigits_natDigits: "canonicalDigits (natDigits n)"
proof -
  have "hd (natDigits n) \<noteq> CHR ''0'' \<or> natDigits n = ''0''"
  proof (cases "hd (natDigits n) = CHR ''0''")
    case True
    then have "n = 0" by (rule hd_natDigits_zero)
    then show ?thesis by (simp add: natDigits_0)
  qed simp
  then show ?thesis
    unfolding canonicalDigits_def using natDigits_nonempty natDigits_all_digits by blast
qed

lemma Itoa_canonical: "canonicalDecimal (Itoa i) i"
proof (cases "i < 0")
  case True
  then show ?thesis
    by (simp add: canonicalDecimal_def Itoa_def canonicalDigits_natDigits decimalValue_natDigits)
next
  case False
  obtain c ds where cd: "natDigits (nat i) = c # ds"
    using natDigits_nonempty by (cases "natDigits (nat i)") auto
  with hd_natDigits_not_minus[of "nat i"] have "c \<noteq> CHR ''-''" by simp
  moreover have "canonicalDigits (c # ds)" "decimalValue (c # ds) = nat i"
    using canonicalDigits_natDigits[of "nat i"] decimalValue_natDigits[of "nat i"] cd by simp_all
  ultimately show ?thesis using False cd
    by (simp add: canonicalDecimal_def Itoa_def)
qed

section \<open>The two loops\<close>

lemma sliceLoop_Inr_iff:
  "i + length xs \<le> length o' \<Longrightarrow>
   sliceLoop xs i o' = Inr r \<longleftrightarrow>
     (\<exists>ys. list_all2 (\<lambda>x y. transformData x = Inr y) xs ys \<and>
           r = take i o' @ ys @ drop (i + length xs) o')"
proof (induction xs arbitrary: i o' r)
  case Nil
  then show ?case by auto
next
  case (Cons x xs)
  show ?case
  proof (cases "transformData x")
    case (Inl e)
    then show ?thesis by (auto simp: list_all2_Cons1)
  next
    case (Inr x')
    from Cons.prems have i: "i < length o'" and le: "Suc i + length xs \<le> length (o'[i := x'])"
      by simp_all
    have tk: "take (Suc i) (o'[i := x']) = take i o' @ [x']"
      using i by (simp add: take_Suc_conv_app_nth)
    have dr: "drop (Suc i + length xs) (o'[i := x']) = drop (Suc (i + length xs)) o'"
      by simp
    show ?thesis
      unfolding sliceLoop.simps Inr sum.case Cons.IH[OF le] tk dr
      by (auto simp: list_all2_Cons1 Inr)
  qed
qed

lemma transformData_VSlice_iff:
  "transformData (VSlice xs) = Inr out \<longleftrightarrow>
     (\<exists>ys. out = VSlice ys \<and> list_all2 (\<lambda>x y. transformData x = Inr y) xs ys)"
proof -
  have "sliceLoop xs 0 (replicate (length xs) VNil) = Inr r \<longleftrightarrow>
          list_all2 (\<lambda>x y. transformData x = Inr y) xs r" for r
    by (subst sliceLoop_Inr_iff) auto
  then show ?thesis
    by (cases "sliceLoop xs 0 (replicate (length xs) VNil)") auto
qed

lemma sliceLoop_Inl:
  "sliceLoop xs i o' = Inl e \<Longrightarrow> \<exists>x \<in> set xs. transformData x = Inl e"
  by (induction xs arbitrary: i o') (auto split: sum.splits)

lemma mapLoop_Inr_iff:
  "mapLoop kvs o' = Inr r \<longleftrightarrow>
     (\<exists>es. list_all2 (\<lambda>kv e. keyString (fst kv) = Inr (fst e) \<and> transformData (snd kv) = Inr (snd e)) kvs es \<and>
           r = fold (\<lambda>e. AList.update (fst e) (snd e)) es o')"
proof (induction kvs arbitrary: o' r)
  case Nil
  then show ?case by auto
next
  case (Cons kv kvs)
  obtain k v where kv: "kv = (k, v)" by (cases kv)
  show ?case
  proof (cases "keyString k")
    case (Inl e)
    then show ?thesis by (auto simp: kv list_all2_Cons1)
  next
    case sk: (Inr sk)
    show ?thesis
    proof (cases "transformData v")
      case (Inl e)
      then show ?thesis by (auto simp: kv sk list_all2_Cons1)
    next
      case (Inr v')
      show ?thesis
        unfolding kv mapLoop.simps sk Inr sum.case Cons.IH
        by (force simp: list_all2_Cons1 sk Inr)
    qed
  qed
qed

lemma keys_fold_update:
  "fst ` set (fold (\<lambda>e. AList.update (fst e) (snd e)) es o') = fst ` set o' \<union> fst ` set es"
proof (induction es arbitrary: o')
  case Nil
  show ?case by simp
next
  case (Cons e es)
  show ?case unfolding fold_simps Cons.IH dom_update by auto
qed

lemma transformData_VMapII_iff:
  "transformData (VMapII kvs) = Inr out \<longleftrightarrow>
     (\<exists>es. list_all2 (\<lambda>kv e. keyString (fst kv) = Inr (fst e) \<and> transformData (snd kv) = Inr (snd e)) kvs es \<and>
           out = VMapSI (fold (\<lambda>e. AList.update (fst e) (snd e)) es []))"
  using mapLoop_Inr_iff[of kvs "[]"] by (cases "mapLoop kvs []") auto

lemma keyString_image:
  "list_all2 (\<lambda>kv e. keyString (fst kv) = Inr (fst e) \<and> transformData (snd kv) = Inr (snd e)) kvs es
   \<Longrightarrow> keyString ` fst ` set kvs = Inr ` fst ` set es"
proof (induction rule: list_all2_induct)
  case Nil
  show ?case by simp
next
  case (Cons kv kvs e es)
  then show ?case by (simp only: list.set image_insert)
qed

lemma transformData_VMapII_keys:
  assumes "transformData (VMapII kvs) = Inr out"
  shows "\<exists>m. out = VMapSI m \<and> Inr ` fst ` set m = keyString ` fst ` set kvs"
proof -
  from assms [unfolded transformData_VMapII_iff] obtain es where
    es: "list_all2 (\<lambda>kv e. keyString (fst kv) = Inr (fst e) \<and> transformData (snd kv) = Inr (snd e)) kvs es"
    and out: "out = VMapSI (fold (\<lambda>e. AList.update (fst e) (snd e)) es [])"
    by (elim exE conjE)
  have "fst ` set (fold (\<lambda>e. AList.update (fst e) (snd e)) es []) = fst ` set es"
    unfolding keys_fold_update by simp
  then have "Inr ` fst ` set (fold (\<lambda>e. AList.update (fst e) (snd e)) es []) = keyString ` fst ` set kvs"
    by (simp only: keyString_image[OF es])
  with out show ?thesis by (intro exI conjI)
qed

lemma keyString_bad: "isBadKey k \<Longrightarrow> keyString k = Inl (keyError k)"
  by (cases k) simp_all

lemma keyString_good: "\<not> isBadKey k \<Longrightarrow> \<exists>s. keyString k = Inr s"
  by (cases k) simp_all

lemma transformData_VMapII_bad_key:
  assumes kv: "(k, v) \<in> set kvs" and bad: "isBadKey k"
  shows "\<exists>e. transformData (VMapII kvs) = Inl e"
proof (cases "transformData (VMapII kvs)")
  case (Inr r)
  from transformData_VMapII_keys[OF Inr] obtain m :: "(string \<times> val) list" where
    m: "Inr ` fst ` set m = keyString ` fst ` set kvs" by (elim exE conjE)
  from kv have "fst (k, v) \<in> fst ` set kvs" by (rule imageI)
  then have "k \<in> fst ` set kvs" by simp
  then have "keyString k \<in> keyString ` fst ` set kvs" by (rule imageI)
  then have "keyString k \<in> Inr ` fst ` set m" by (simp only: m)
  then obtain sk where "keyString k = Inr sk" by (rule imageE)
  with keyString_bad[OF bad] show ?thesis by simp
next
  case (Inl err)
  then show ?thesis by (intro exI)
qed

section \<open>Key coercion\<close>

text \<open>
  Claim C1, as stated, fails: the key switch has a case for Go's \<^verbatim>\<open>int\<close> and none
  for the other integer types. The decoder hands over the integer 9223372036854775808,
  which is beyond the range of int, as a uint64; the key switch takes its
  \<^verbatim>\<open>default\<close> branch and the map is refused. The key is an integer, and it is not
  rendered.
\<close>

theorem uint64_key_not_rendered:
  "isInteger (VUint64 9223372036854775808) \<and>
   integerValue (VUint64 9223372036854775808) = 9223372036854775808 \<and>
   keyString (VUint64 9223372036854775808) =
     Inl (Error ''types don't match: expect map key string or int get: uint64'') \<and>
   transformData (VMapII [(VUint64 9223372036854775808, VString ''a'')]) =
     Inl (Error ''types don't match: expect map key string or int get: uint64'')"
  by (simp add: keyError_def)

text \<open>
  Claim C1, amended. A key that is a string is the output key, unchanged. A key that is an
  int (an integer in the range of Go's int) is rendered by \<open>Itoa\<close>, which is the
  canonical decimal numeral of the int: no leading zero, a minus sign exactly for a
  negative value. A key of any other type (nil, bool, float64, slice, either map, and the
  integer types int64 and uint64) makes the key switch fail with the error that names the
  type. For the map as a whole: when \<open>transformData\<close> succeeds the keys of the output
  are exactly the strings of the keys of the input, and a map that holds a key of another
  type fails.
\<close>

theorem key_coercion_rule:
  "keyString (VString s) = Inr s \<and>
   keyString (VInt i) = Inr (Itoa (sint i)) \<and> canonicalDecimal (Itoa (sint i)) (sint i) \<and>
   (isBadKey k \<longrightarrow> keyString k = Inl (keyError k)) \<and>
   (transformData (VMapII kvs) = Inr out \<longrightarrow>
      (\<exists>m. out = VMapSI m \<and> Inr ` fst ` set m = keyString ` fst ` set kvs)) \<and>
   ((k', v') \<in> set kvs' \<and> isBadKey k' \<longrightarrow> (\<exists>e. transformData (VMapII kvs') = Inl e))"
proof (intro conjI impI)
  show "keyString (VString s) = Inr s" by simp
  show "keyString (VInt i) = Inr (Itoa (sint i))" by simp
  show "canonicalDecimal (Itoa (sint i)) (sint i)" by (rule Itoa_canonical)
  show "keyString k = Inl (keyError k)" if "isBadKey k" using that by (rule keyString_bad)
  show "\<exists>m. out = VMapSI m \<and> Inr ` fst ` set m = keyString ` fst ` set kvs"
    if "transformData (VMapII kvs) = Inr out" using that by (rule transformData_VMapII_keys)
  show "\<exists>e. transformData (VMapII kvs') = Inl e" if "(k', v') \<in> set kvs' \<and> isBadKey k'"
    using that transformData_VMapII_bad_key by blast
qed

theorem key_coercion_rule_witness:
  "keyString (VString ''name'') = Inr ''name'' \<and>
   keyString (VInt (- 120)) = Inr ''-120'' \<and> canonicalDecimal ''-120'' (- 120) \<and>
   keyString (VBool True) = Inl (keyError (VBool True)) \<and>
   (\<exists>m. VMapSI [(''1'', VString ''a''), (''b'', VNil)] = VMapSI m \<and>
        Inr ` fst ` set m = keyString ` fst ` set [(VInt 1, VString ''a''), (VString ''b'', VNil)]) \<and>
   (\<exists>e. transformData (VMapII [(VString ''x'', VNil), (VFloat64 0, VNil)]) = Inl e)"
proof -
  have n: "sint (- 120 :: 64 word) = - 120" by code_simp
  have i: "Itoa (- 120) = ''-120''" by code_simp
  have t: "transformData (VMapII [(VInt 1, VString ''a''), (VString ''b'', VNil)]) =
             Inr (VMapSI [(''1'', VString ''a''), (''b'', VNil)])"
    by code_simp
  have b: "(VFloat64 0, VNil) \<in> set [(VString ''x'', VNil), (VFloat64 0, VNil)] \<and> isBadKey (VFloat64 0)"
    by simp
  have c: "isBadKey (VBool True)" by simp
  from key_coercion_rule [where s = "''name''" and i = "- 120" and k = "VBool True"
      and kvs = "[(VInt 1, VString ''a''), (VString ''b'', VNil)]"
      and out = "VMapSI [(''1'', VString ''a''), (''b'', VNil)]"
      and k' = "VFloat64 0" and v' = VNil and kvs' = "[(VString ''x'', VNil), (VFloat64 0, VNil)]"]
  show ?thesis unfolding n i using t b c by blast
qed

section \<open>Unsupported keys\<close>

lemma first_bad_key:
  "generic t \<Longrightarrow>
     (badKeys t = [] \<longrightarrow> (\<exists>out. transformData t = Inr out)) \<and>
     (badKeys t \<noteq> [] \<longrightarrow> transformData t = Inl (keyError (hd (badKeys t))))"
  "genericEntries kvs \<Longrightarrow>
     (badKeysII kvs = [] \<longrightarrow> (\<exists>r. mapLoop kvs o' = Inr r)) \<and>
     (badKeysII kvs \<noteq> [] \<longrightarrow> mapLoop kvs o' = Inl (keyError (hd (badKeysII kvs))))"
  "genericElems xs \<Longrightarrow>
     (badKeysElems xs = [] \<longrightarrow> (\<exists>r. sliceLoop xs i o'' = Inr r)) \<and>
     (badKeysElems xs \<noteq> [] \<longrightarrow> sliceLoop xs i o'' = Inl (keyError (hd (badKeysElems xs))))"
proof (induction t and kvs o' and xs i o'' rule: transformData_mapLoop_sliceLoop.induct)
  case (12 k v kvs o')
  show ?case
  proof (cases "isBadKey k")
    case True
    then show ?thesis by (simp add: keyString_bad)
  next
    case False
    then obtain sk where sk: "keyString k = Inr sk" using keyString_good by blast
    from "12.prems" have gv: "generic v" and gk: "genericEntries kvs" by simp_all
    note ihv = "12.IH"(1)[OF sk gv]
    show ?thesis
    proof (cases "badKeys v = []")
      case True
      with ihv obtain v' where v': "transformData v = Inr v'" by blast
      from "12.IH"(2)[OF sk v' gk] show ?thesis using False True sk v' by simp
    next
      case nonempty: False
      with ihv show ?thesis using False sk by simp
    qed
  qed
next
  case (14 x xs i o')
  from "14.prems" have gx: "generic x" and gxs: "genericElems xs" by simp_all
  note ihx = "14.IH"(1)[OF gx]
  show ?case
  proof (cases "badKeys x = []")
    case True
    with ihx obtain x' where x': "transformData x = Inr x'" by blast
    from "14.IH"(2)[OF x' gxs] show ?thesis using True x' by simp
  next
    case False
    with ihx show ?thesis by simp
  qed
qed (auto split: sum.splits)

lemma badKeys_bad:
  "k \<in> set (badKeys t) \<Longrightarrow> isBadKey k"
  "k \<in> set (badKeysII kvs) \<Longrightarrow> isBadKey k"
  "k \<in> set (badKeysSI m) \<Longrightarrow> isBadKey k"
  "k \<in> set (badKeysElems xs) \<Longrightarrow> isBadKey k"
  by (induction t and kvs and m and xs rule: badKeys_badKeysII_badKeysSI_badKeysElems.induct)
     (auto split: if_splits)

text \<open>
  Claim C2, as stated, fails: a Generic Node whose only key is the integer
  18446744073709551615, which the decoder hands over as a uint64, holds no key that is
  neither a string nor an integer, and \<open>transformData\<close> returns the error all the
  same.
\<close>

theorem integer_key_is_an_error:
  "generic (VMapII [(VUint64 18446744073709551615, VSlice [VString ''a''])]) \<and>
   isInteger (VUint64 18446744073709551615) \<and>
   integerValue (VUint64 18446744073709551615) = 18446744073709551615 \<and>
   transformData (VMapII [(VUint64 18446744073709551615, VSlice [VString ''a''])]) =
     Inl (Error ''types don't match: expect map key string or int get: uint64'')"
  by (simp add: keyError_def)

text \<open>
  Claim C2, amended. On a Generic Node \<open>transformData\<close> returns an error exactly when the
  tree holds a key that is neither a string nor an int (an integer in the range of Go's
  int); a key that is an int64 or a uint64 is such a key. The result is then the error
  alone (\<^verbatim>\<open>return nil, err\<close>: no tree comes with it), and its message ends with the
  dynamic type of the first such key the run meets. In every other case it returns a tree.
\<close>

theorem unsupported_key_type:
  assumes "generic t"
  shows "case transformData t of
           Inl e \<Rightarrow>
             badKeys t \<noteq> [] \<and> isBadKey (hd (badKeys t)) \<and>
             e = Error (''types don't match: expect map key string or int get: ''
                        @ typeName (hd (badKeys t)))
         | Inr out \<Rightarrow> badKeys t = []"
proof (cases "badKeys t = []")
  case True
  with first_bad_key(1)[OF assms] show ?thesis by auto
next
  case False
  then have "hd (badKeys t) \<in> set (badKeys t)" by simp
  then have "isBadKey (hd (badKeys t))" by (rule badKeys_bad(1))
  with False first_bad_key(1)[OF assms] show ?thesis by (simp add: keyError_def)
qed

theorem unsupported_key_type_witness:
  "generic (VMapII [(VString ''list'', VSlice [VInt 1, VMapII [(VBool True, VString ''x'')]])]) \<and>
   transformData (VMapII [(VString ''list'', VSlice [VInt 1, VMapII [(VBool True, VString ''x'')]])]) =
     Inl (Error ''types don't match: expect map key string or int get: bool'') \<and>
   generic (VMapII [(VInt 1, VString ''a''), (VInt 2, VString ''b'')]) \<and>
   transformData (VMapII [(VInt 1, VString ''a''), (VInt 2, VString ''b'')]) =
     Inr (VMapSI [(''1'', VString ''a''), (''2'', VString ''b'')])"
proof -
  have g1: "generic (VMapII [(VString ''list'', VSlice [VInt 1, VMapII [(VBool True, VString ''x'')]])])"
    by simp
  have g2: "generic (VMapII [(VInt 1, VString ''a''), (VInt 2, VString ''b'')])"
    by simp
  have ok: "transformData (VMapII [(VInt 1, VString ''a''), (VInt 2, VString ''b'')]) =
              Inr (VMapSI [(''1'', VString ''a''), (''2'', VString ''b'')])"
    by code_simp
  from unsupported_key_type [OF g1] have
    "transformData (VMapII [(VString ''list'', VSlice [VInt 1, VMapII [(VBool True, VString ''x'')]])]) =
       Inl (Error ''types don't match: expect map key string or int get: bool'')"
    by (simp split: sum.splits)
  with g1 g2 ok show ?thesis by blast
qed

section \<open>The output is canonical\<close>

lemma canonical_stringKeys:
  "canonical t \<Longrightarrow> stringKeys t"
  "canonicalSI m \<Longrightarrow> stringKeysSI m"
  "canonicalElems xs \<Longrightarrow> stringKeysElems xs"
  by (induction t and m and xs rule: canonical_canonicalSI_canonicalElems.induct) simp_all

lemma canonicalSI_update:
  "canonical v \<Longrightarrow> canonicalSI m \<Longrightarrow> canonicalSI (AList.update s v m)"
  by (induction m) auto

lemma canonicalElems_update:
  "canonical x \<Longrightarrow> canonicalElems xs \<Longrightarrow> canonicalElems (xs[i := x])"
  by (induction xs arbitrary: i) (auto split: nat.splits)

lemma canonicalElems_replicate: "canonicalElems (replicate n VNil)"
  by (induction n) simp_all

lemma transformData_canonical:
  "generic t \<Longrightarrow> transformData t = Inr out \<Longrightarrow> canonical out"
  "genericEntries kvs \<Longrightarrow> canonicalSI o' \<Longrightarrow> mapLoop kvs o' = Inr r \<Longrightarrow> canonicalSI r"
  "genericElems xs \<Longrightarrow> canonicalElems o'' \<Longrightarrow> sliceLoop xs i o'' = Inr r' \<Longrightarrow> canonicalElems r'"
proof (induction t and kvs o' and xs i o'' arbitrary: out and r and r'
       rule: transformData_mapLoop_sliceLoop.induct)
  case (1 kvs)
  then show ?case by (auto split: sum.splits)
next
  case (2 in1)
  then show ?case by (auto split: sum.splits simp: canonicalElems_replicate)
next
  case (12 k v kvs o')
  from "12.prems"(3) obtain sk v' where sk: "keyString k = Inr sk" and v': "transformData v = Inr v'"
    and r: "mapLoop kvs (AList.update sk v' o') = Inr r"
    by (auto split: sum.splits)
  from "12.prems"(1) have gv: "generic v" and gk: "genericEntries kvs" by simp_all
  from "12.IH"(1)[OF sk gv v'] have "canonical v'" .
  with "12.prems"(2) have "canonicalSI (AList.update sk v' o')" by (simp add: canonicalSI_update)
  from "12.IH"(2)[OF sk v' gk this r] show ?case .
next
  case (14 x xs i o')
  from "14.prems"(3) obtain x' where x': "transformData x = Inr x'"
    and r: "sliceLoop xs (Suc i) (o'[i := x']) = Inr r'"
    by (auto split: sum.splits)
  from "14.prems"(1) have gx: "generic x" and gxs: "genericElems xs" by simp_all
  from "14.IH"(1)[OF gx x'] have "canonical x'" .
  with "14.prems"(2) have "canonicalElems (o'[i := x'])" by (simp add: canonicalElems_update)
  from "14.IH"(2)[OF x' gxs this r] show ?case .
qed auto

text \<open>
  Claim C4. Every tree that \<open>transformData\<close> returns for a Generic Node has only string
  keys, at every depth: all its mappings are \<^verbatim>\<open>map[string]interface{}\<close> values.
\<close>

theorem output_keys_are_strings:
  assumes "generic t" and "transformData t = Inr out"
  shows "stringKeys out \<and> canonical out"
  using transformData_canonical(1)[OF assms] canonical_stringKeys(1) by blast

theorem output_keys_are_strings_witness:
  "generic (VMapII [(VInt 7, VSlice [VMapII [(VInt (- 3), VNil)]]), (VString ''k'', VMapII [])]) \<and>
   transformData (VMapII [(VInt 7, VSlice [VMapII [(VInt (- 3), VNil)]]), (VString ''k'', VMapII [])]) =
     Inr (VMapSI [(''7'', VSlice [VMapSI [(''-3'', VNil)]]), (''k'', VMapSI [])]) \<and>
   stringKeys (VMapSI [(''7'', VSlice [VMapSI [(''-3'', VNil)]]), (''k'', VMapSI [])]) \<and>
   canonical (VMapSI [(''7'', VSlice [VMapSI [(''-3'', VNil)]]), (''k'', VMapSI [])])"
proof -
  have g: "generic (VMapII [(VInt 7, VSlice [VMapII [(VInt (- 3), VNil)]]), (VString ''k'', VMapII [])])"
    by simp
  have t: "transformData (VMapII [(VInt 7, VSlice [VMapII [(VInt (- 3), VNil)]]), (VString ''k'', VMapII [])]) =
             Inr (VMapSI [(''7'', VSlice [VMapSI [(''-3'', VNil)]]), (''k'', VMapSI [])])"
    by code_simp
  from output_keys_are_strings [OF g t] g t show ?thesis by blast
qed

section \<open>Sequences\<close>



section \<open>Structure is preserved\<close>

lemma transformData_fixed:
  "transformData t = Inr u \<Longrightarrow> transformData u = Inr u"
proof (induction t arbitrary: u)
  case (VSlice xs)
  from VSlice.prems obtain ys where u: "u = VSlice ys"
    and ys: "list_all2 (\<lambda>x y. transformData x = Inr y) xs ys"
    unfolding transformData_VSlice_iff by blast
  have "list_all2 (\<lambda>y y'. transformData y = Inr y') ys ys"
    unfolding list_all2_conv_all_nth
  proof (intro conjI allI impI)
    fix i assume i: "i < length ys"
    with ys have "xs ! i \<in> set xs" "transformData (xs ! i) = Inr (ys ! i)"
      by (auto simp: list_all2_conv_all_nth)
    then show "transformData (ys ! i) = Inr (ys ! i)" by (rule VSlice.IH)
  qed simp
  then show ?case unfolding u transformData_VSlice_iff by blast
next
  case (VMapII kvs)
  from VMapII.prems obtain m where "u = VMapSI m"
    unfolding transformData_VMapII_iff by blast
  then show ?case by simp
qed auto

lemma update_fresh: "s \<notin> fst ` set m \<Longrightarrow> AList.update s v m = m @ [(s, v)]"
  by (induction m) auto

lemma keyString_keyText: "\<not> isBadKey k \<Longrightarrow> keyString k = Inr (keyText k)"
  by (cases k) (simp_all add: keyText_def)

lemma transformData_shape:
  "badKeys t = [] \<Longrightarrow> noCollision t \<Longrightarrow>
     \<exists>u. transformData t = Inr u \<and> textKeys (shape u) = textKeys (shape t)"
  "badKeysII kvs = [] \<Longrightarrow> noCollisionII kvs \<Longrightarrow>
     distinct (map fst o' @ map (keyText \<circ> fst) kvs) \<Longrightarrow>
     \<exists>es. mapLoop kvs o' = Inr (o' @ es) \<and>
          textKeysEntries (shapeSI es) = textKeysEntries (shapeII kvs)"
  "badKeysElems xs = [] \<Longrightarrow> noCollisionElems xs \<Longrightarrow> i + length xs \<le> length o'' \<Longrightarrow>
     \<exists>ys. sliceLoop xs i o'' = Inr (take i o'' @ ys @ drop (i + length xs) o'') \<and>
          length ys = length xs \<and>
          textKeysElems (shapeElems ys) = textKeysElems (shapeElems xs)"
proof (induction t and kvs o' and xs i o'' rule: transformData_mapLoop_sliceLoop.induct)
  case (1 kvs)
  from "1.prems" have "badKeysII kvs = []" "noCollisionII kvs"
    "distinct (map fst ([] :: (string \<times> val) list) @ map (keyText \<circ> fst) kvs)"
    by simp_all
  from "1.IH"[OF this] obtain es where "mapLoop kvs [] = Inr es"
    "textKeysEntries (shapeSI es) = textKeysEntries (shapeII kvs)" by auto
  then show ?case by simp
next
  case (2 in1)
  from "2.prems" have "badKeysElems in1 = []" "noCollisionElems in1"
    "0 + length in1 \<le> length (replicate (length in1) VNil)" by simp_all
  from "2.IH"[OF this] obtain ys where
    "sliceLoop in1 0 (replicate (length in1) VNil) = Inr ys"
    "textKeysElems (shapeElems ys) = textKeysElems (shapeElems in1)" by auto
  then show ?case by simp
next
  case (12 k v kvs o')
  from "12.prems"(1) have good: "\<not> isBadKey k" and bv: "badKeys v = []" and bk: "badKeysII kvs = []"
    by (auto split: if_splits)
  from good have sk: "keyString k = Inr (keyText k)" by (rule keyString_keyText)
  from "12.prems"(2) have nv: "noCollision v" and nk: "noCollisionII kvs" by simp_all
  from "12.IH"(1)[OF sk bv nv] obtain v' where v': "transformData v = Inr v'"
    and sv: "textKeys (shape v') = textKeys (shape v)" by blast
  from "12.prems"(3) have fresh: "keyText k \<notin> fst ` set o'" by auto
  then have upd: "AList.update (keyText k) v' o' = o' @ [(keyText k, v')]" by (rule update_fresh)
  from "12.prems"(3) have "distinct (map fst (AList.update (keyText k) v' o') @ map (keyText \<circ> fst) kvs)"
    unfolding upd by (auto simp: comp_def)
  from "12.IH"(2)[OF sk v' bk nk this] obtain es where
    es: "mapLoop kvs (AList.update (keyText k) v' o') = Inr (AList.update (keyText k) v' o' @ es)"
    and ses: "textKeysEntries (shapeSI es) = textKeysEntries (shapeII kvs)" by blast
  have "mapLoop ((k, v) # kvs) o' = Inr (o' @ (keyText k, v') # es)"
    using sk v' es by (simp add: upd)
  moreover have "textKeysEntries (shapeSI ((keyText k, v') # es)) = textKeysEntries (shapeII ((k, v) # kvs))"
    using sv ses by (simp add: keyText_def)
  ultimately show ?case by blast
next
  case (14 x xs i o')
  from "14.prems"(1) have bx: "badKeys x = []" and bxs: "badKeysElems xs = []" by simp_all
  from "14.prems"(2) have nx: "noCollision x" and nxs: "noCollisionElems xs" by simp_all
  from "14.IH"(1)[OF bx nx] obtain x' where x': "transformData x = Inr x'"
    and sx: "textKeys (shape x') = textKeys (shape x)" by blast
  from "14.prems"(3) have i: "i < length o'" and le: "Suc i + length xs \<le> length (o'[i := x'])"
    by simp_all
  from "14.IH"(2)[OF x' bxs nxs le] obtain ys where
    ys: "sliceLoop xs (Suc i) (o'[i := x']) =
           Inr (take (Suc i) (o'[i := x']) @ ys @ drop (Suc i + length xs) (o'[i := x']))"
    and len: "length ys = length xs"
    and sys: "textKeysElems (shapeElems ys) = textKeysElems (shapeElems xs)" by blast
  have tk: "take (Suc i) (o'[i := x']) = take i o' @ [x']"
    using i by (simp add: take_Suc_conv_app_nth)
  have "sliceLoop (x # xs) i o' = Inr (take i o' @ (x' # ys) @ drop (i + length (x # xs)) o')"
    using x' ys unfolding tk by simp
  moreover have "length (x' # ys) = length (x # xs)" using len by simp
  moreover have "textKeysElems (shapeElems (x' # ys)) = textKeysElems (shapeElems (x # xs))"
    using sx sys by simp
  ultimately show ?case by blast
qed auto

lemma isString_not_bad: "isString k \<Longrightarrow> \<not> isBadKey k"
  by (cases k) simp_all

lemma stringKeys_badKeys:
  "stringKeys t \<Longrightarrow> badKeys t = []"
  "stringKeysII kvs \<Longrightarrow> badKeysII kvs = []"
  "stringKeysSI m \<Longrightarrow> badKeysSI m = []"
  "stringKeysElems xs \<Longrightarrow> badKeysElems xs = []"
  by (induction t and kvs and m and xs rule: stringKeys_stringKeysII_stringKeysSI_stringKeysElems.induct)
     (simp_all add: isString_not_bad)

lemma stringKeysII_keys: "stringKeysII kvs \<Longrightarrow> k \<in> fst ` set kvs \<Longrightarrow> isString k"
  by (induction kvs) force+

lemma keyText_inj_on_strings: "isString k \<Longrightarrow> isString k' \<Longrightarrow> keyText k = keyText k' \<Longrightarrow> k = k'"
  by (cases k; cases k') (simp_all add: keyText_def)

lemma distinct_keyText:
  assumes "stringKeysII kvs" and "distinct (map fst kvs)"
  shows "distinct (map (keyText \<circ> fst) kvs)"
proof -
  have "inj_on keyText (set (map fst kvs))"
    using stringKeysII_keys[OF assms(1)] by (auto intro!: inj_onI keyText_inj_on_strings)
  with assms(2) have "distinct (map keyText (map fst kvs))"
    unfolding distinct_map[of keyText] by (intro conjI)
  then show ?thesis by simp
qed

lemma stringKeys_noCollision:
  "stringKeys t \<Longrightarrow> wellFormed t \<Longrightarrow> noCollision t"
  "stringKeysII kvs \<Longrightarrow> wellFormedII kvs \<Longrightarrow> noCollisionII kvs"
  "stringKeysSI m \<Longrightarrow> wellFormedSI m \<Longrightarrow> noCollisionSI m"
  "stringKeysElems xs \<Longrightarrow> wellFormedElems xs \<Longrightarrow> noCollisionElems xs"
  by (induction t and kvs and m and xs rule: stringKeys_stringKeysII_stringKeysSI_stringKeysElems.induct)
     (simp_all add: distinct_keyText)

lemma isString_keyText: "isString k \<Longrightarrow> VString (keyText k) = k"
  by (cases k) (simp_all add: keyText_def)

lemma stringKeys_textKeys:
  "stringKeys t \<Longrightarrow> textKeys (shape t) = shape t"
  "stringKeysII kvs \<Longrightarrow> textKeysEntries (shapeII kvs) = shapeII kvs"
  "stringKeysSI m \<Longrightarrow> textKeysEntries (shapeSI m) = shapeSI m"
  "stringKeysElems xs \<Longrightarrow> textKeysElems (shapeElems xs) = shapeElems xs"
  by (induction t and kvs and m and xs rule: stringKeys_stringKeysII_stringKeysSI_stringKeysElems.induct)
     (simp_all add: isString_keyText)

lemma stringKeysSI_update:
  "stringKeys v \<Longrightarrow> stringKeysSI m \<Longrightarrow> stringKeysSI (AList.update s v m)"
  by (induction m) auto

lemma stringKeysElems_update:
  "stringKeys x \<Longrightarrow> stringKeysElems xs \<Longrightarrow> stringKeysElems (xs[i := x])"
  by (induction xs arbitrary: i) (auto split: nat.splits)

lemma stringKeysElems_replicate: "stringKeysElems (replicate n VNil)"
  by (induction n) simp_all

lemma transformData_stringKeys:
  "stringKeys t \<Longrightarrow> transformData t = Inr out \<Longrightarrow> stringKeys out"
  "stringKeysII kvs \<Longrightarrow> stringKeysSI o' \<Longrightarrow> mapLoop kvs o' = Inr r \<Longrightarrow> stringKeysSI r"
  "stringKeysElems xs \<Longrightarrow> stringKeysElems o'' \<Longrightarrow> sliceLoop xs i o'' = Inr r' \<Longrightarrow> stringKeysElems r'"
proof (induction t and kvs o' and xs i o'' arbitrary: out and r and r'
       rule: transformData_mapLoop_sliceLoop.induct)
  case (1 kvs)
  then show ?case by (auto split: sum.splits)
next
  case (2 in1)
  then show ?case by (auto split: sum.splits simp: stringKeysElems_replicate)
next
  case (12 k v kvs o')
  from "12.prems"(3) obtain sk v' where sk: "keyString k = Inr sk" and v': "transformData v = Inr v'"
    and r: "mapLoop kvs (AList.update sk v' o') = Inr r"
    by (auto split: sum.splits)
  from "12.prems"(1) have gv: "stringKeys v" and gk: "stringKeysII kvs" by simp_all
  from "12.IH"(1)[OF sk gv v'] have "stringKeys v'" .
  with "12.prems"(2) have "stringKeysSI (AList.update sk v' o')" by (simp add: stringKeysSI_update)
  from "12.IH"(2)[OF sk v' gk this r] show ?case .
next
  case (14 x xs i o')
  from "14.prems"(3) obtain x' where x': "transformData x = Inr x'"
    and r: "sliceLoop xs (Suc i) (o'[i := x']) = Inr r'"
    by (auto split: sum.splits)
  from "14.prems"(1) have gx: "stringKeys x" and gxs: "stringKeysElems xs" by simp_all
  from "14.IH"(1)[OF gx x'] have "stringKeys x'" .
  with "14.prems"(2) have "stringKeysElems (o'[i := x'])" by (simp add: stringKeysElems_update)
  from "14.IH"(2)[OF x' gxs this r] show ?case .
qed auto

text \<open>
  Claim C6. On a tree whose mapping keys are all strings already (and whose maps are maps:
  no key twice), \<open>transformData\<close> succeeds and returns a tree of the same shape: the same
  nesting of sequences and mappings, the same keys in the same places, the same scalars.
  What it returns is a fixed point: normalizing it again returns it unchanged.
\<close>

theorem normalize_idempotent:
  assumes "stringKeys t" and "wellFormed t"
  shows "\<exists>u. transformData t = Inr u \<and> shape u = shape t \<and> transformData u = Inr u"
proof -
  from assms have "badKeys t = []" "noCollision t"
    by (simp_all add: stringKeys_badKeys stringKeys_noCollision)
  from transformData_shape(1)[OF this] obtain u where u: "transformData t = Inr u"
    and s: "textKeys (shape u) = textKeys (shape t)" by blast
  from transformData_stringKeys(1)[OF assms(1) u] have "stringKeys u" .
  with s assms(1) have "shape u = shape t" by (simp add: stringKeys_textKeys)
  moreover from u have "transformData u = Inr u" by (rule transformData_fixed)
  ultimately show ?thesis using u by blast
qed

theorem normalize_idempotent_witness:
  "stringKeys (VMapII [(VString ''name'', VString ''Widget''), (VString ''tags'', VSlice [VMapII [(VString ''a'', VInt 3)]])]) \<and>
   wellFormed (VMapII [(VString ''name'', VString ''Widget''), (VString ''tags'', VSlice [VMapII [(VString ''a'', VInt 3)]])]) \<and>
   (\<exists>u. transformData (VMapII [(VString ''name'', VString ''Widget''), (VString ''tags'', VSlice [VMapII [(VString ''a'', VInt 3)]])]) = Inr u \<and>
        shape u = shape (VMapII [(VString ''name'', VString ''Widget''), (VString ''tags'', VSlice [VMapII [(VString ''a'', VInt 3)]])]) \<and>
        transformData u = Inr u)"
proof -
  have s: "stringKeys (VMapII [(VString ''name'', VString ''Widget''), (VString ''tags'', VSlice [VMapII [(VString ''a'', VInt 3)]])])"
    by simp
  have w: "wellFormed (VMapII [(VString ''name'', VString ''Widget''), (VString ''tags'', VSlice [VMapII [(VString ''a'', VInt 3)]])])"
    by simp
  from normalize_idempotent [OF s w] s w show ?thesis by blast
qed

section \<open>The byte loader chooses by prefix\<close>

lemma HasPrefix_iff: "HasPrefix s p \<longleftrightarrow> (\<exists>rest. s = p @ rest)"
proof
  assume "HasPrefix s p"
  then have "s = p @ drop (length p) s"
    unfolding HasPrefix_def by (metis append_take_drop_id)
  then show "\<exists>rest. s = p @ rest" ..
next
  assume "\<exists>rest. s = p @ rest"
  then show "HasPrefix s p" unfolding HasPrefix_def by auto
qed

text \<open>
  Claim C7. Which loader \<open>LoadStrategy\<close> returns depends on the location string alone:
  the remote one when the location begins with \<^verbatim>\<open>http\<close>, the local one for every
  other location. \<open>LoadFromFileOrHTTP\<close> accordingly fetches over the network in the first
  case and reads the local file in the second.
\<close>

theorem strategy_by_prefix:
  "LoadStrategy path local remote = (if \<exists>rest. path = ''http'' @ rest then remote else local) \<and>
   LoadFromFileOrHTTP w path =
     (if \<exists>rest. path = ''http'' @ rest then loadHTTPBytes w LoadHTTPTimeout path
      else readFile w path)"
  unfolding LoadFromFileOrHTTP_def LoadStrategy_def HasPrefix_iff by simp

theorem strategy_by_prefix_witness:
  "LoadStrategy ''http://example.org/a.yaml'' ''local'' ''remote'' = ''remote'' \<and>
   LoadStrategy ''/etc/a.yaml'' ''local'' ''remote'' = ''local'' \<and>
   LoadStrategy ''httpd.yaml'' ''local'' ''remote'' = ''remote''"
proof -
  have a: "\<exists>rest. ''http://example.org/a.yaml'' = ''http'' @ rest" by simp
  have b: "\<not> (\<exists>rest. ''/etc/a.yaml'' = ''http'' @ rest)" by simp
  have c: "\<exists>rest. ''httpd.yaml'' = ''http'' @ rest" by simp
  from strategy_by_prefix [where path = "''http://example.org/a.yaml''" and local = "''local''" and remote = "''remote''"]
       strategy_by_prefix [where path = "''/etc/a.yaml''" and local = "''local''" and remote = "''remote''"]
       strategy_by_prefix [where path = "''httpd.yaml''" and local = "''local''" and remote = "''remote''"]
       a b c
  show ?thesis by presburger
qed



section \<open>Only mappings are decoded\<close>

text \<open>
  Claim C10, as stated, fails: a valid document whose root is a sequence is accepted by the
  parser and rejected by \<open>bytesToYAMLDoc\<close>, whose target variable is a map. Here the
  parser is one that reads the stream \<^verbatim>\<open>- a\<close> as the sequence of the string
  \<^verbatim>\<open>a\<close>, as every YAML parser does.
\<close>

theorem sequence_root_rejected:
  "Decode \<lparr>Decode = (\<lambda>data. if data = ''- a'' then Inr (VSlice [VString ''a''])
                           else Inl (Error ''yaml: did not find expected node content'')),
          TypeError = (\<lambda>doc. Error ''yaml: cannot unmarshal into map[interface {}]interface {}'')\<rparr>
      ''- a''
     = Inr (VSlice [VString ''a'']) \<and>
   bytesToYAMLDoc
      \<lparr>Decode = (\<lambda>data. if data = ''- a'' then Inr (VSlice [VString ''a''])
                       else Inl (Error ''yaml: did not find expected node content'')),
       TypeError = (\<lambda>doc. Error ''yaml: cannot unmarshal into map[interface {}]interface {}'')\<rparr>
      ''- a''
     = Inl (Error ''yaml: cannot unmarshal into map[interface {}]interface {}'')"
  by (simp add: bytesToYAMLDoc_def Unmarshal_def)

text \<open>
  Claim C10, amended. An error of the parser is passed on unchanged. A valid document whose
  root is a mapping is decoded into that mapping. Nothing else succeeds, except that a null
  (or empty) document gives the empty mapping: whatever \<open>bytesToYAMLDoc\<close> returns is a
  mapping.
\<close>

theorem mapping_root_parsed:
  "(Decode y data = Inl err \<longrightarrow> bytesToYAMLDoc y data = Inl err) \<and>
   (Decode y data' = Inr (VMapII m) \<longrightarrow> bytesToYAMLDoc y data' = Inr (VMapII m)) \<and>
   (bytesToYAMLDoc y data'' = Inr doc \<longrightarrow>
      (\<exists>m'. doc = VMapII m' \<and>
            (Decode y data'' = Inr (VMapII m') \<or> Decode y data'' = Inr VNil \<and> m' = [])))"
  unfolding bytesToYAMLDoc_def Unmarshal_def
  by (auto split: sum.splits val.splits)

theorem mapping_root_parsed_witness:
  "Decode \<lparr>Decode = (\<lambda>data. if data = ''a: 1'' then Inr (VMapII [(VString ''a'', VInt 1)])
                           else Inl (Error ''yaml: did not find expected node content'')),
          TypeError = (\<lambda>doc. Error ''yaml: cannot unmarshal into map[interface {}]interface {}'')\<rparr>
      ''a: 1'' = Inr (VMapII [(VString ''a'', VInt 1)]) \<and>
   bytesToYAMLDoc \<lparr>Decode = (\<lambda>data. if data = ''a: 1'' then Inr (VMapII [(VString ''a'', VInt 1)])
                           else Inl (Error ''yaml: did not find expected node content'')),
          TypeError = (\<lambda>doc. Error ''yaml: cannot unmarshal into map[interface {}]interface {}'')\<rparr>
      ''a: 1'' = Inr (VMapII [(VString ''a'', VInt 1)])"
proof -
  let ?y = "\<lparr>Decode = (\<lambda>data. if data = ''a: 1'' then Inr (VMapII [(VString ''a'', VInt 1)])
                           else Inl (Error ''yaml: did not find expected node content'')),
          TypeError = (\<lambda>doc. Error ''yaml: cannot unmarshal into map[interface {}]interface {}'')\<rparr>"
  have d: "Decode ?y ''a: 1'' = Inr (VMapII [(VString ''a'', VInt 1)])" by simp
  from mapping_root_parsed [where y = ?y and data' = "''a: 1''" and m = "[(VString ''a'', VInt 1)]"] d
  show ?thesis by blast
qed

section \<open>Serialization does not depend on the order of map entries\<close>

lemma sameSI_iff:
  "sameSI m m' \<longleftrightarrow> (\<forall>(k, v) \<in> set m. \<exists>v'. map_of m' k = Some v' \<and> sameValue v v')"
  by (induction m) (auto split: option.splits)

lemma sameII_iff:
  "sameII m m' \<longleftrightarrow> (\<forall>(k, v) \<in> set m. \<exists>v'. map_of m' k = Some v' \<and> sameValue v v')"
  by (induction m) (auto split: option.splits)

lemma sameElems_iff: "sameElems xs ys \<longleftrightarrow> list_all2 sameValue xs ys"
  by (induction xs arbitrary: ys) (auto split: list.splits simp: list_all2_Cons1)

lemma wellFormedSI_iff: "wellFormedSI m \<longleftrightarrow> (\<forall>(k, v) \<in> set m. wellFormed v)"
  by (induction m) auto

lemma wellFormedII_iff: "wellFormedII m \<longleftrightarrow> (\<forall>(k, v) \<in> set m. wellFormed v)"
  by (induction m) auto

lemma wellFormedElems_iff: "wellFormedElems xs \<longleftrightarrow> (\<forall>x \<in> set xs. wellFormed x)"
  by (induction xs) auto

lemma marshalMembers_map: "marshalMembers j m = map (\<lambda>kv. (fst kv, Marshal j (snd kv))) m"
  by (induction m) auto

lemma marshalElems_map: "marshalElems j xs = map (Marshal j) xs"
  by (induction xs) auto

lemma distinct_map_sort_key: "distinct (map f (sort_key f xs)) = distinct (map f xs)"
  by (induction xs) (auto simp: distinct_insort_key)

lemma sort_key_unique:
  assumes "distinct (map f xs)" and "distinct (map f ys)" and "set xs = set ys"
  shows "sort_key f xs = sort_key f ys"
proof (rule map_sorted_distinct_set_unique[where f = f])
  from assms(1) have "inj_on f (set xs)" by (simp add: distinct_map)
  with assms(3) show "inj_on f (set (sort_key f xs) \<union> set (sort_key f ys))" by simp
qed (simp_all add: assms distinct_map_sort_key)

lemma same_entries_subset:
  assumes d: "distinct (map fst xs)" "distinct (map fst ys)"
    and len: "length xs = length ys" and sub: "set xs \<subseteq> set ys"
  shows "set xs = set ys"
proof -
  from d have "distinct xs" "distinct ys" by (simp_all add: distinct_map)
  then have "card (set xs) = card (set ys)" using len by (simp add: distinct_card)
  with sub show ?thesis by (simp add: card_subset_eq)
qed

lemma Marshal_order_free:
  "wellFormed a \<Longrightarrow> wellFormed b \<Longrightarrow> sameValue a b \<Longrightarrow> Marshal j a = Marshal j b"
proof (induction a arbitrary: b)
  case (VSlice xs)
  from VSlice.prems(3) obtain ys where b: "b = VSlice ys" and s: "list_all2 sameValue xs ys"
    by (auto split: val.splits simp: sameElems_iff)
  from VSlice.prems(1,2) b have w: "\<forall>x \<in> set xs. wellFormed x" "\<forall>y \<in> set ys. wellFormed y"
    by (simp_all add: wellFormedElems_iff)
  have "map (Marshal j) xs = map (Marshal j) ys"
  proof (rule nth_equalityI)
    show "length (map (Marshal j) xs) = length (map (Marshal j) ys)"
      using s by (simp add: list_all2_lengthD)
  next
    fix i assume "i < length (map (Marshal j) xs)"
    then have i: "i < length xs" "i < length ys" using s by (simp_all add: list_all2_lengthD)
    then have "xs ! i \<in> set xs" "wellFormed (xs ! i)" "wellFormed (ys ! i)"
      "sameValue (xs ! i) (ys ! i)"
      using w s by (simp_all add: list_all2_nthD)
    then have "Marshal j (xs ! i) = Marshal j (ys ! i)" by (rule VSlice.IH)
    with i show "map (Marshal j) xs ! i = map (Marshal j) ys ! i" by simp
  qed
  then show ?case by (simp add: b marshalElems_map)
next
  case (VMapSI m)
  from VMapSI.prems(3) obtain m' where b: "b = VMapSI m'" and len: "length m = length m'"
    and s: "sameSI m m'"
    by (auto split: val.splits)
  from VMapSI.prems(1,2) b have dm: "distinct (map fst m)" and dm': "distinct (map fst m')"
    and wm: "\<forall>(k, v) \<in> set m. wellFormed v" and wm': "\<forall>(k, v) \<in> set m'. wellFormed v"
    by (simp_all add: wellFormedSI_iff)
  have sub: "set (marshalMembers j m) \<subseteq> set (marshalMembers j m')"
  proof
    fix e assume "e \<in> set (marshalMembers j m)"
    then obtain k v where kv: "(k, v) \<in> set m" and e: "e = (k, Marshal j v)"
      by (auto simp: marshalMembers_map)
    from s kv obtain v' where v': "map_of m' k = Some v'" and sv: "sameValue v v'"
      unfolding sameSI_iff by blast
    from v' have kv': "(k, v') \<in> set m'" by (rule map_of_SomeD)
    from kv have "v \<in> Basic_BNFs.snds (k, v)" by simp
    from VMapSI.IH[OF kv this _ _ sv] wm wm' kv kv' have "Marshal j v = Marshal j v'" by auto
    with kv' e show "e \<in> set (marshalMembers j m')" by (force simp: marshalMembers_map)
  qed
  have "map fst (marshalMembers j m) = map fst m" "map fst (marshalMembers j m') = map fst m'"
    by (simp_all add: marshalMembers_map comp_def)
  with dm dm' have d: "distinct (map fst (marshalMembers j m))" "distinct (map fst (marshalMembers j m'))"
    by simp_all
  have "length (marshalMembers j m) = length (marshalMembers j m')"
    using len by (simp add: marshalMembers_map)
  from same_entries_subset[OF d this sub]
  have "sort_key fst (marshalMembers j m) = sort_key fst (marshalMembers j m')"
    by (rule sort_key_unique[OF d])
  then show ?case by (simp add: b)
next
  case (VMapII m)
  then show ?case by (auto split: val.splits)
qed auto

lemma normalFormII_map: "normalFormII kvs = map (\<lambda>kv. (keyText (fst kv), normalForm (snd kv))) kvs"
  by (induction kvs) auto

lemma normalFormElems_map: "normalFormElems xs = map normalForm xs"
  by (induction xs) auto

lemma transformData_normalForm:
  "badKeys t = [] \<Longrightarrow> noCollision t \<Longrightarrow> transformData t = Inr (normalForm t)"
  "badKeysII kvs = [] \<Longrightarrow> noCollisionII kvs \<Longrightarrow>
     distinct (map fst o' @ map (keyText \<circ> fst) kvs) \<Longrightarrow>
     mapLoop kvs o' = Inr (o' @ normalFormII kvs)"
  "badKeysElems xs = [] \<Longrightarrow> noCollisionElems xs \<Longrightarrow> i + length xs \<le> length o'' \<Longrightarrow>
     sliceLoop xs i o'' = Inr (take i o'' @ normalFormElems xs @ drop (i + length xs) o'')"
proof (induction t and kvs o' and xs i o'' rule: transformData_mapLoop_sliceLoop.induct)
  case (1 kvs)
  from "1.prems" have "badKeysII kvs = []" "noCollisionII kvs"
    "distinct (map fst ([] :: (string \<times> val) list) @ map (keyText \<circ> fst) kvs)"
    by simp_all
  from "1.IH"[OF this] show ?case by simp
next
  case (2 in1)
  from "2.prems" have "badKeysElems in1 = []" "noCollisionElems in1"
    "0 + length in1 \<le> length (replicate (length in1) VNil)" by simp_all
  from "2.IH"[OF this] show ?case by (simp add: normalFormElems_map)
next
  case (12 k v kvs o')
  from "12.prems"(1) have good: "\<not> isBadKey k" and bv: "badKeys v = []" and bk: "badKeysII kvs = []"
    by (auto split: if_splits)
  from good have sk: "keyString k = Inr (keyText k)" by (rule keyString_keyText)
  from "12.prems"(2) have nv: "noCollision v" and nk: "noCollisionII kvs" by simp_all
  from "12.IH"(1)[OF sk bv nv] have v': "transformData v = Inr (normalForm v)" .
  from "12.prems"(3) have fresh: "keyText k \<notin> fst ` set o'" by auto
  then have upd: "AList.update (keyText k) (normalForm v) o' = o' @ [(keyText k, normalForm v)]"
    by (rule update_fresh)
  from "12.prems"(3)
  have "distinct (map fst (AList.update (keyText k) (normalForm v) o') @ map (keyText \<circ> fst) kvs)"
    unfolding upd by (auto simp: comp_def)
  from "12.IH"(2)[OF sk v' bk nk this] show ?case
    using sk v' by (simp add: upd)
next
  case (14 x xs i o')
  from "14.prems"(1) have bx: "badKeys x = []" and bxs: "badKeysElems xs = []" by simp_all
  from "14.prems"(2) have nx: "noCollision x" and nxs: "noCollisionElems xs" by simp_all
  from "14.IH"(1)[OF bx nx] have x': "transformData x = Inr (normalForm x)" .
  from "14.prems"(3) have i: "i < length o'"
    and le: "Suc i + length xs \<le> length (o'[i := normalForm x])"
    by simp_all
  have tk: "take (Suc i) (o'[i := normalForm x]) = take i o' @ [normalForm x]"
    using i by (simp add: take_Suc_conv_app_nth)
  from "14.IH"(2)[OF x' bxs nxs le] show ?case
    using x' by (simp add: tk)
qed auto

lemma badKeysII_iff: "badKeysII m = [] \<longleftrightarrow> (\<forall>(k, v) \<in> set m. \<not> isBadKey k \<and> badKeys v = [])"
  by (induction m) auto

lemma badKeysSI_iff: "badKeysSI m = [] \<longleftrightarrow> (\<forall>(k, v) \<in> set m. badKeys v = [])"
  by (induction m) auto

lemma badKeysElems_iff: "badKeysElems xs = [] \<longleftrightarrow> (\<forall>x \<in> set xs. badKeys x = [])"
  by (induction xs) auto

lemma noCollisionII_iff: "noCollisionII m \<longleftrightarrow> (\<forall>(k, v) \<in> set m. noCollision v)"
  by (induction m) auto

lemma noCollisionSI_iff: "noCollisionSI m \<longleftrightarrow> (\<forall>(k, v) \<in> set m. noCollision v)"
  by (induction m) auto

lemma noCollisionElems_iff: "noCollisionElems xs \<longleftrightarrow> (\<forall>x \<in> set xs. noCollision x)"
  by (induction xs) auto

lemma partner:
  assumes fwd: "\<forall>(k, v) \<in> set m. \<exists>v'. map_of m' k = Some v' \<and> R v v'"
    and d: "distinct (map fst m)" and d': "distinct (map fst m')"
    and len: "length m = length m'"
  shows "\<forall>(k, v') \<in> set m'. \<exists>v. map_of m k = Some v \<and> R v v'"
proof -
  have sub: "fst ` set m \<subseteq> fst ` set m'"
  proof
    fix k assume "k \<in> fst ` set m"
    then obtain v where "(k, v) \<in> set m" by auto
    with fwd obtain v' where "map_of m' k = Some v'" by blast
    then have "(k, v') \<in> set m'" by (rule map_of_SomeD)
    then show "k \<in> fst ` set m'" by force
  qed
  have "card (set (map fst m)) = length m" "card (set (map fst m')) = length m'"
    using d d' by (simp_all add: distinct_card del: set_map)
  with len have "card (fst ` set m) = card (fst ` set m')" by simp
  with sub have keys: "fst ` set m = fst ` set m'" by (simp add: card_subset_eq)
  show ?thesis
  proof (intro ballI, clarify)
    fix k v' assume kv': "(k, v') \<in> set m'"
    then have "k \<in> fst ` set m" unfolding keys by force
    then obtain v where kv: "(k, v) \<in> set m" by auto
    with d have mv: "map_of m k = Some v" by simp
    from fwd kv obtain v'' where "map_of m' k = Some v''" and r: "R v v''" by blast
    moreover from d' kv' have "map_of m' k = Some v'" by simp
    ultimately have "R v v'" by simp
    with mv show "\<exists>v. map_of m k = Some v \<and> R v v'" by blast
  qed
qed

lemma sameValue_sym:
  "wellFormed a \<Longrightarrow> wellFormed b \<Longrightarrow> sameValue a b \<Longrightarrow> sameValue b a"
proof (induction a arbitrary: b)
  case (VSlice xs)
  from VSlice.prems(3) obtain ys where b: "b = VSlice ys" and s: "list_all2 sameValue xs ys"
    by (auto split: val.splits simp: sameElems_iff)
  from VSlice.prems(1,2) b have w: "\<forall>x \<in> set xs. wellFormed x" "\<forall>y \<in> set ys. wellFormed y"
    by (simp_all add: wellFormedElems_iff)
  have "list_all2 sameValue ys xs"
    unfolding list_all2_conv_all_nth
  proof (intro conjI allI impI)
    show "length ys = length xs" using s by (simp add: list_all2_lengthD)
  next
    fix i assume "i < length ys"
    then have i: "i < length xs" "i < length ys" using s by (simp_all add: list_all2_lengthD)
    then have "xs ! i \<in> set xs" "wellFormed (xs ! i)" "wellFormed (ys ! i)"
      "sameValue (xs ! i) (ys ! i)"
      using w s by (simp_all add: list_all2_nthD)
    then show "sameValue (ys ! i) (xs ! i)" by (rule VSlice.IH)
  qed
  then show ?case by (simp add: b sameElems_iff)
next
  case (VMapSI m)
  from VMapSI.prems(3) obtain m' where b: "b = VMapSI m'" and len: "length m = length m'"
    and s: "sameSI m m'"
    by (auto split: val.splits)
  from VMapSI.prems(1,2) b have dm: "distinct (map fst m)" and dm': "distinct (map fst m')"
    and wm: "\<forall>(k, v) \<in> set m. wellFormed v" and wm': "\<forall>(k, v) \<in> set m'. wellFormed v"
    by (simp_all add: wellFormedSI_iff)
  note p = partner[OF s[unfolded sameSI_iff] dm dm' len]
  have "sameSI m' m"
    unfolding sameSI_iff
  proof (intro ballI, clarify)
    fix k v' assume kv': "(k, v') \<in> set m'"
    with p obtain v where mv: "map_of m k = Some v" and sv: "sameValue v v'" by blast
    from mv have kv: "(k, v) \<in> set m" by (rule map_of_SomeD)
    then have "v \<in> Basic_BNFs.snds (k, v)" by simp
    from VMapSI.IH[OF kv this _ _ sv] wm wm' kv kv' have "sameValue v' v" by auto
    with mv show "\<exists>v. map_of m k = Some v \<and> sameValue v' v" by blast
  qed
  with len show ?case by (simp add: b)
next
  case (VMapII m)
  from VMapII.prems(3) obtain m' where b: "b = VMapII m'" and len: "length m = length m'"
    and s: "sameII m m'"
    by (auto split: val.splits)
  from VMapII.prems(1,2) b have dm: "distinct (map fst m)" and dm': "distinct (map fst m')"
    and wm: "\<forall>(k, v) \<in> set m. wellFormed v" and wm': "\<forall>(k, v) \<in> set m'. wellFormed v"
    by (simp_all add: wellFormedII_iff)
  note p = partner[OF s[unfolded sameII_iff] dm dm' len]
  have "sameII m' m"
    unfolding sameII_iff
  proof (intro ballI, clarify)
    fix k v' assume kv': "(k, v') \<in> set m'"
    with p obtain v where mv: "map_of m k = Some v" and sv: "sameValue v v'" by blast
    from mv have kv: "(k, v) \<in> set m" by (rule map_of_SomeD)
    then have "v \<in> Basic_BNFs.snds (k, v)" by simp
    from VMapII.IH(2)[OF kv this _ _ sv] wm wm' kv kv' have "sameValue v' v" by auto
    with mv show "\<exists>v. map_of m k = Some v \<and> sameValue v' v" by blast
  qed
  with len show ?case by (simp add: b)
qed auto

lemma sameValue_badKeys:
  "sameValue a b \<Longrightarrow> badKeys b = [] \<Longrightarrow> badKeys a = []"
proof (induction a arbitrary: b)
  case (VSlice xs)
  from VSlice.prems(1) obtain ys where b: "b = VSlice ys" and s: "list_all2 sameValue xs ys"
    by (auto split: val.splits simp: sameElems_iff)
  have "badKeys x = []" if "x \<in> set xs" for x
  proof -
    from that obtain i where i: "i < length xs" "x = xs ! i" by (auto simp: in_set_conv_nth)
    with s have "sameValue x (ys ! i)" "ys ! i \<in> set ys"
      by (simp_all add: list_all2_nthD list_all2_lengthD)
    with VSlice.prems(2) b that show ?thesis
      by (intro VSlice.IH[of x "ys ! i"]) (simp_all add: badKeysElems_iff)
  qed
  then show ?case by (simp add: badKeysElems_iff)
next
  case (VMapSI m)
  from VMapSI.prems(1) obtain m' where b: "b = VMapSI m'" and s: "sameSI m m'"
    by (auto split: val.splits)
  have "badKeys v = []" if kv: "(k, v) \<in> set m" for k v
  proof -
    from s kv obtain v' where v': "map_of m' k = Some v'" and sv: "sameValue v v'"
      unfolding sameSI_iff by blast
    from v' have "(k, v') \<in> set m'" by (rule map_of_SomeD)
    with VMapSI.prems(2) b have "badKeys v' = []" by (auto simp: badKeysSI_iff)
    from kv have "v \<in> Basic_BNFs.snds (k, v)" by simp
    from VMapSI.IH[OF kv this sv \<open>badKeys v' = []\<close>] show ?thesis .
  qed
  then show ?case by (auto simp: badKeysSI_iff)
next
  case (VMapII m)
  from VMapII.prems(1) obtain m' where b: "b = VMapII m'" and s: "sameII m m'"
    by (auto split: val.splits)
  have "\<not> isBadKey k \<and> badKeys v = []" if kv: "(k, v) \<in> set m" for k v
  proof -
    from s kv obtain v' where v': "map_of m' k = Some v'" and sv: "sameValue v v'"
      unfolding sameII_iff by blast
    from v' have "(k, v') \<in> set m'" by (rule map_of_SomeD)
    with VMapII.prems(2) b have g: "\<not> isBadKey k" "badKeys v' = []" by (auto simp: badKeysII_iff)
    from kv have "v \<in> Basic_BNFs.snds (k, v)" by simp
    from VMapII.IH(2)[OF kv this sv g(2)] g(1) show ?thesis by simp
  qed
  then show ?case by (auto simp: badKeysII_iff)
qed auto

lemma sameValue_noCollision:
  "sameValue a b \<Longrightarrow> wellFormed a \<Longrightarrow> noCollision b \<Longrightarrow> noCollision a"
proof (induction a arbitrary: b)
  case (VSlice xs)
  from VSlice.prems(1) obtain ys where b: "b = VSlice ys" and s: "list_all2 sameValue xs ys"
    by (auto split: val.splits simp: sameElems_iff)
  have "noCollision x" if "x \<in> set xs" for x
  proof -
    from that obtain i where i: "i < length xs" "x = xs ! i" by (auto simp: in_set_conv_nth)
    with s have "sameValue x (ys ! i)" "ys ! i \<in> set ys"
      by (simp_all add: list_all2_nthD list_all2_lengthD)
    with VSlice.prems(2,3) b that show ?thesis
      by (intro VSlice.IH[of x "ys ! i"]) (simp_all add: noCollisionElems_iff wellFormedElems_iff)
  qed
  then show ?case by (simp add: noCollisionElems_iff)
next
  case (VMapSI m)
  from VMapSI.prems(1) obtain m' where b: "b = VMapSI m'" and s: "sameSI m m'"
    by (auto split: val.splits)
  have "noCollision v" if kv: "(k, v) \<in> set m" for k v
  proof -
    from s kv obtain v' where v': "map_of m' k = Some v'" and sv: "sameValue v v'"
      unfolding sameSI_iff by blast
    from v' have "(k, v') \<in> set m'" by (rule map_of_SomeD)
    with VMapSI.prems(3) b have n: "noCollision v'" by (auto simp: noCollisionSI_iff)
    from kv VMapSI.prems(2) have w: "wellFormed v" by (auto simp: wellFormedSI_iff)
    from kv have "v \<in> Basic_BNFs.snds (k, v)" by simp
    from VMapSI.IH[OF kv this sv w n] show ?thesis .
  qed
  with VMapSI.prems(2) show ?case by (auto simp: noCollisionSI_iff)
next
  case (VMapII m)
  from VMapII.prems(1) obtain m' where b: "b = VMapII m'" and s: "sameII m m'"
    by (auto split: val.splits)
  have vals: "noCollision v" if kv: "(k, v) \<in> set m" for k v
  proof -
    from s kv obtain v' where v': "map_of m' k = Some v'" and sv: "sameValue v v'"
      unfolding sameII_iff by blast
    from v' have "(k, v') \<in> set m'" by (rule map_of_SomeD)
    with VMapII.prems(3) b have n: "noCollision v'" by (auto simp: noCollisionII_iff)
    from kv VMapII.prems(2) have w: "wellFormed v" by (auto simp: wellFormedII_iff)
    from kv have "v \<in> Basic_BNFs.snds (k, v)" by simp
    from VMapII.IH(2)[OF kv this sv w n] show ?thesis .
  qed
  have sub: "set (map fst m) \<subseteq> set (map fst m')"
  proof
    fix k assume "k \<in> set (map fst m)"
    then obtain v where "(k, v) \<in> set m" by auto
    with s obtain v' where "map_of m' k = Some v'" unfolding sameII_iff by blast
    then have "(k, v') \<in> set m'" by (rule map_of_SomeD)
    then show "k \<in> set (map fst m')" by force
  qed
  from VMapII.prems(3) b have "distinct (map keyText (map fst m'))" by simp
  then have "inj_on keyText (set (map fst m'))" by (simp only: distinct_map)
  then have "inj_on keyText (set (map fst m))" using sub by (rule inj_on_subset)
  moreover from VMapII.prems(2) have "distinct (map fst m)" by simp
  ultimately have "distinct (map keyText (map fst m))" by (simp only: distinct_map)
  with vals show ?case by (auto simp: noCollisionII_iff)
qed auto

lemma wellFormed_normalForm:
  "wellFormed t \<Longrightarrow> noCollision t \<Longrightarrow> wellFormed (normalForm t)"
proof (induction t)
  case (VSlice xs)
  then show ?case by (auto simp: wellFormedElems_iff noCollisionElems_iff normalFormElems_map)
next
  case (VMapII m)
  have "map fst (normalFormII m) = map (keyText \<circ> fst) m"
    by (simp add: normalFormII_map comp_def)
  with VMapII.prems(2) have "distinct (map fst (normalFormII m))" by simp
  moreover have "wellFormed (normalForm v)" if "(k, v) \<in> set m" for k v
    using that VMapII.IH(2)[of "(k, v)" v] VMapII.prems
    by (auto simp: wellFormedII_iff noCollisionII_iff)
  then have "wellFormedSI (normalFormII m)"
    by (auto simp: wellFormedSI_iff normalFormII_map)
  ultimately show ?case by simp
qed auto

lemma sameValue_normalForm:
  "sameValue a b \<Longrightarrow> noCollision b \<Longrightarrow> sameValue (normalForm a) (normalForm b)"
proof (induction a arbitrary: b)
  case (VSlice xs)
  from VSlice.prems(1) obtain ys where b: "b = VSlice ys" and s: "list_all2 sameValue xs ys"
    by (auto split: val.splits simp: sameElems_iff)
  have "list_all2 sameValue (map normalForm xs) (map normalForm ys)"
    unfolding list_all2_conv_all_nth
  proof (intro conjI allI impI)
    show "length (map normalForm xs) = length (map normalForm ys)"
      using s by (simp add: list_all2_lengthD)
  next
    fix i assume "i < length (map normalForm xs)"
    then have i: "i < length xs" "i < length ys" using s by (simp_all add: list_all2_lengthD)
    then have "xs ! i \<in> set xs" "sameValue (xs ! i) (ys ! i)" "noCollision (ys ! i)"
      using s VSlice.prems(2) b by (simp_all add: list_all2_nthD noCollisionElems_iff)
    then have "sameValue (normalForm (xs ! i)) (normalForm (ys ! i))" by (rule VSlice.IH)
    with i show "sameValue (map normalForm xs ! i) (map normalForm ys ! i)" by simp
  qed
  then show ?case by (simp add: b sameElems_iff normalFormElems_map)
next
  case (VMapII m)
  from VMapII.prems(1) obtain m' where b: "b = VMapII m'" and len: "length m = length m'"
    and s: "sameII m m'"
    by (auto split: val.splits)
  from VMapII.prems(2) b have d': "distinct (map fst (normalFormII m'))"
    by (simp add: normalFormII_map comp_def)
  have "sameSI (normalFormII m) (normalFormII m')"
    unfolding sameSI_iff
  proof (intro ballI, clarify)
    fix sk w assume "(sk, w) \<in> set (normalFormII m)"
    then obtain k v where kv: "(k, v) \<in> set m" and sk: "sk = keyText k" and w: "w = normalForm v"
      by (auto simp: normalFormII_map)
    from s kv obtain v' where v': "map_of m' k = Some v'" and sv: "sameValue v v'"
      unfolding sameII_iff by blast
    from v' have kv': "(k, v') \<in> set m'" by (rule map_of_SomeD)
    then have "(keyText k, normalForm v') \<in> set (normalFormII m')"
      by (force simp: normalFormII_map)
    with d' have look: "map_of (normalFormII m') (keyText k) = Some (normalForm v')" by simp
    from kv' VMapII.prems(2) b have n: "noCollision v'" by (auto simp: noCollisionII_iff)
    from kv have "v \<in> Basic_BNFs.snds (k, v)" by simp
    from VMapII.IH(2)[OF kv this sv n] look
    show "\<exists>v'. map_of (normalFormII m') sk = Some v' \<and> sameValue w v'"
      unfolding sk w by blast
  qed
  with len show ?case by (simp add: b normalFormII_map)
next
  case (VMapSI m)
  then show ?case by (auto split: val.splits)
qed auto

lemma pipeline_order_free:
  assumes wa: "wellFormed a" and wb: "wellFormed b" and s: "sameValue a b"
    and bk: "badKeys a = []" and nc: "noCollision a"
  shows "YAMLToJSON j a = YAMLToJSON j b"
proof -
  from wa wb s have s': "sameValue b a" by (rule sameValue_sym)
  from s' bk have bk': "badKeys b = []" by (rule sameValue_badKeys)
  from s' wb nc have nc': "noCollision b" by (rule sameValue_noCollision)
  have "wellFormed (normalForm a)" "wellFormed (normalForm b)"
    using wa wb nc nc' by (simp_all add: wellFormed_normalForm)
  moreover from s nc' have "sameValue (normalForm a) (normalForm b)" by (rule sameValue_normalForm)
  ultimately have "Marshal j (normalForm a) = Marshal j (normalForm b)" by (rule Marshal_order_free)
  then show ?thesis
    using bk nc bk' nc' by (simp add: YAMLToJSON_def transformData_normalForm)
qed

text \<open>
  Claim C9, as stated, fails for trees built from the same input when two keys of a mapping
  have the same text. The map with the int key 1 and the string key \<^verbatim>\<open>1\<close> is one Go
  value; a run that visits the int key first keeps the value of the string key, a run that
  visits the string key first keeps the value of the int key, and the two runs write
  different bytes. (The strings of this example need no escaping: they are written between
  double quotes. No float occurs.)
\<close>

theorem same_input_different_bytes:
  "wellFormed (VMapII [(VInt 1, VString ''a''), (VString ''1'', VString ''b'')]) \<and>
   sameValue (VMapII [(VInt 1, VString ''a''), (VString ''1'', VString ''b'')])
             (VMapII [(VString ''1'', VString ''b''), (VInt 1, VString ''a'')]) \<and>
   YAMLToJSON \<lparr>FormatFloat = (\<lambda>f. (Digit 0, [])),
               QuoteString = (\<lambda>s. CHR 0x22 # s @ [CHR 0x22])\<rparr>
      (VMapII [(VInt 1, VString ''a''), (VString ''1'', VString ''b'')]) =
     Inr [CHR ''{'', CHR 0x22, CHR ''1'', CHR 0x22, CHR '':'', CHR 0x22, CHR ''b'', CHR 0x22, CHR ''}''] \<and>
   YAMLToJSON \<lparr>FormatFloat = (\<lambda>f. (Digit 0, [])),
               QuoteString = (\<lambda>s. CHR 0x22 # s @ [CHR 0x22])\<rparr>
      (VMapII [(VString ''1'', VString ''b''), (VInt 1, VString ''a'')]) =
     Inr [CHR ''{'', CHR 0x22, CHR ''1'', CHR 0x22, CHR '':'', CHR 0x22, CHR ''a'', CHR 0x22, CHR ''}'']"
  by code_simp

text \<open>
  Claim C9, amended. Serialization is deterministic: the bytes written for a tree do not
  depend on the order in which the entries of its maps are visited. Trees built by
  \<open>transformData\<close> from the same input serialize to the same bytes whenever no two keys of
  one mapping of the input have the same text.
\<close>

theorem serialization_order_free:
  "(wellFormed u \<and> wellFormed u' \<and> sameValue u u' \<longrightarrow> Marshal j u = Marshal j u') \<and>
   (wellFormed t \<and> wellFormed t' \<and> sameValue t t' \<and> badKeys t = [] \<and> noCollision t \<longrightarrow>
      YAMLToJSON j t = YAMLToJSON j t')"
  using Marshal_order_free pipeline_order_free by blast

theorem serialization_order_free_witness:
  "Marshal \<lparr>FormatFloat = (\<lambda>f. (Digit 0, [])),
            QuoteString = (\<lambda>s. CHR 0x22 # s @ [CHR 0x22])\<rparr>
      (VMapSI [(''b'', VSlice [VMapSI [(''y'', VNil), (''x'', VInt 2)]]), (''a'', VBool True)]) =
   Marshal \<lparr>FormatFloat = (\<lambda>f. (Digit 0, [])),
            QuoteString = (\<lambda>s. CHR 0x22 # s @ [CHR 0x22])\<rparr>
      (VMapSI [(''a'', VBool True), (''b'', VSlice [VMapSI [(''x'', VInt 2), (''y'', VNil)]])]) \<and>
   YAMLToJSON \<lparr>FormatFloat = (\<lambda>f. (Digit 0, [])),
               QuoteString = (\<lambda>s. CHR 0x22 # s @ [CHR 0x22])\<rparr>
      (VMapII [(VInt 2, VString ''b''), (VString ''one'', VMapII [(VInt 1, VNil), (VInt 0, VNil)])]) =
   YAMLToJSON \<lparr>FormatFloat = (\<lambda>f. (Digit 0, [])),
               QuoteString = (\<lambda>s. CHR 0x22 # s @ [CHR 0x22])\<rparr>
      (VMapII [(VString ''one'', VMapII [(VInt 0, VNil), (VInt 1, VNil)]), (VInt 2, VString ''b'')])"
proof -
  have a: "wellFormed (VMapSI [(''b'', VSlice [VMapSI [(''y'', VNil), (''x'', VInt 2)]]), (''a'', VBool True)]) \<and>
           wellFormed (VMapSI [(''a'', VBool True), (''b'', VSlice [VMapSI [(''x'', VInt 2), (''y'', VNil)]])]) \<and>
           sameValue (VMapSI [(''b'', VSlice [VMapSI [(''y'', VNil), (''x'', VInt 2)]]), (''a'', VBool True)])
                     (VMapSI [(''a'', VBool True), (''b'', VSlice [VMapSI [(''x'', VInt 2), (''y'', VNil)]])])"
    by simp
  have b: "wellFormed (VMapII [(VInt 2, VString ''b''), (VString ''one'', VMapII [(VInt 1, VNil), (VInt 0, VNil)])]) \<and>
           wellFormed (VMapII [(VString ''one'', VMapII [(VInt 0, VNil), (VInt 1, VNil)]), (VInt 2, VString ''b'')]) \<and>
           sameValue (VMapII [(VInt 2, VString ''b''), (VString ''one'', VMapII [(VInt 1, VNil), (VInt 0, VNil)])])
                     (VMapII [(VString ''one'', VMapII [(VInt 0, VNil), (VInt 1, VNil)]), (VInt 2, VString ''b'')]) \<and>
           badKeys (VMapII [(VInt 2, VString ''b''), (VString ''one'', VMapII [(VInt 1, VNil), (VInt 0, VNil)])]) = [] \<and>
           noCollision (VMapII [(VInt 2, VString ''b''), (VString ''one'', VMapII [(VInt 1, VNil), (VInt 0, VNil)])])"
    by code_simp
  from serialization_order_free
    [where j = "\<lparr>FormatFloat = (\<lambda>f. (Digit 0, [])),
                  QuoteString = (\<lambda>s. CHR 0x22 # s @ [CHR 0x22])\<rparr>"
       and u = "VMapSI [(''b'', VSlice [VMapSI [(''y'', VNil), (''x'', VInt 2)]]), (''a'', VBool True)]"
       and u' = "VMapSI [(''a'', VBool True), (''b'', VSlice [VMapSI [(''x'', VInt 2), (''y'', VNil)]])]"
       and t = "VMapII [(VInt 2, VString ''b''), (VString ''one'', VMapII [(VInt 1, VNil), (VInt 0, VNil)])]"
       and t' = "VMapII [(VString ''one'', VMapII [(VInt 0, VNil), (VInt 1, VNil)]), (VInt 2, VString ''b'')]"]
    a b
  show ?thesis by blast
qed

section \<open>Normalize, serialize, read back\<close>

























































end
